theory Spec2Isabelle
  imports Main
begin

section \<open>Study Plan Optimizer: the scheduling core of app.js\<close>

text \<open>
  The theory embeds the scheduling core of \<^verbatim>\<open>src/app.js\<close>: the calendar helpers of
  \<^verbatim>\<open>Utils\<close>, the two task validators of \<^verbatim>\<open>Validator\<close>, \<^verbatim>\<open>IDGenerator\<close>, and the
  operations of \<^verbatim>\<open>TaskManager\<close> on the in-memory \<^verbatim>\<open>AppStorage.studyData\<close>.

  Conventions of the embedding.
  \<^item> A JavaScript string is a \<open>string\<close>; each \<open>char\<close> stands for one UTF-16 code unit in
    the range U+0000 to U+00FF, so \<open>length\<close> is the JavaScript \<^verbatim>\<open>.length\<close>.
  \<^item> Numbers that the code only adds, subtracts and compares are \<open>int\<close>; the counter of
    \<^verbatim>\<open>IDGenerator\<close> and the clock reading are \<open>nat\<close>.
  \<^item> The global mutable store is passed in and returned. A task object held by
    reference (by \<^verbatim>\<open>find\<close>, or inside the filtered and sorted copy of the task array) is
    its index in the store's task list, so that a field assignment through the reference is
    a list update at that index.
  \<^item> \<^verbatim>\<open>throw new Error(...)\<close> is the \<open>Inl\<close> branch of a sum. Every operation returns the
    store it leaves behind, also when it throws.
  \<^item> Calls of \<^verbatim>\<open>ErrorHandler.showUserError\<close> and \<^verbatim>\<open>ErrorHandler.showSuccess\<close> are returned as
    a list of notifications, in the order of the calls.
  \<^item> \<^verbatim>\<open>AppStorage.save\<close> writes to Firestore and does not touch the in-memory store; it is
    left out.
\<close>

subsection \<open>CONFIG\<close>

definition DAYS :: "string list" where
  "DAYS = [''monday'', ''tuesday'', ''wednesday'', ''thursday'', ''friday'', ''saturday'',
           ''sunday'']"

definition DAYS_CONFIG :: "(string \<times> string) list" where
  \<comment> \<open>the \<^verbatim>\<open>id\<close> and the \<^verbatim>\<open>name\<close> of each entry\<close>
  "DAYS_CONFIG = [(''monday'', ''Monday''), (''tuesday'', ''Tuesday''),
                  (''wednesday'', ''Wednesday''), (''thursday'', ''Thursday''),
                  (''friday'', ''Friday''), (''saturday'', ''Saturday''),
                  (''sunday'', ''Sunday'')]"

definition STATUS_COMPLETED :: string where "STATUS_COMPLETED = ''completed''"
definition STATUS_NOT_COMPLETED :: string where "STATUS_NOT_COMPLETED = ''not-completed''"
definition STATUS_APPROACHING :: string where "STATUS_APPROACHING = ''approaching''"
definition STATUS_MISSED :: string where "STATUS_MISSED = ''missed''"

definition DEFAULT_DAILY_LIMIT :: int where "DEFAULT_DAILY_LIMIT = 150"
definition MAX_TASK_DURATION :: int where "MAX_TASK_DURATION = 1440"
definition MAX_TITLE_LENGTH :: nat where "MAX_TITLE_LENGTH = 100"
definition MAX_BALANCE_ATTEMPTS :: nat where "MAX_BALANCE_ATTEMPTS = 7"
definition RESCHEDULE_DAYS_AHEAD :: int where "RESCHEDULE_DAYS_AHEAD = 3"

subsection \<open>Strings and numbers of the platform\<close>

definition toLowerCase_char :: "char \<Rightarrow> char" where
  \<comment> \<open>A to Z, and the Latin-1 capitals U+00C0 to U+00DE without the sign U+00D7\<close>
  "toLowerCase_char c =
     (let n = (of_char c :: nat)
      in if (65 \<le> n \<and> n \<le> 90) \<or> (192 \<le> n \<and> n \<le> 222 \<and> n \<noteq> 215)
         then char_of (n + 32) else c)"

definition toLowerCase :: "string \<Rightarrow> string" where
  "toLowerCase s = map toLowerCase_char s"

definition isWhiteSpace :: "char \<Rightarrow> bool" where
  \<comment> \<open>white space and line terminators below U+0100: TAB, LF, VT, FF, CR, SP, NBSP\<close>
  "isWhiteSpace c = ((of_char c :: nat) \<in> {9, 10, 11, 12, 13, 32, 160})"

definition trim :: "string \<Rightarrow> string" where
  "trim s = rev (dropWhile isWhiteSpace (rev (dropWhile isWhiteSpace s)))"

definition js_rem :: "int \<Rightarrow> int \<Rightarrow> int" where
  \<comment> \<open>the operator \<^verbatim>\<open>%\<close> on integers: the result has the sign of the dividend\<close>
  "js_rem a b = sgn a * (\<bar>a\<bar> mod \<bar>b\<bar>)"

fun findIndex :: "('a \<Rightarrow> bool) \<Rightarrow> 'a list \<Rightarrow> int" where
  "findIndex p [] = - 1"
| "findIndex p (y # ys) =
     (if p y then 0 else (let r = findIndex p ys in if r < 0 then - 1 else r + 1))"

definition indexOf :: "'a list \<Rightarrow> 'a \<Rightarrow> int" where
  "indexOf xs x = findIndex (\<lambda>y. y = x) xs"

definition digit_char :: "nat \<Rightarrow> char" where
  "digit_char d = char_of (48 + d)"

fun show_nat :: "nat \<Rightarrow> string" where
  "show_nat n = (if n < 10 then [digit_char n] else show_nat (n div 10) @ [digit_char (n mod 10)])"

declare show_nat.simps [simp del]

definition toString :: "int \<Rightarrow> string" where
  \<comment> \<open>\<^verbatim>\<open>String(n)\<close> of an integer\<close>
  "toString i = (if i < 0 then CHR ''-'' # show_nat (nat (- i)) else show_nat (nat i))"

definition digit_value :: "char \<Rightarrow> nat option" where
  \<comment> \<open>the value of a digit in any radix up to 36\<close>
  "digit_value c =
     (let n = (of_char c :: nat)
      in if 48 \<le> n \<and> n \<le> 57 then Some (n - 48)
         else if 97 \<le> n \<and> n \<le> 122 then Some (n - 87)
         else if 65 \<le> n \<and> n \<le> 90 then Some (n - 55)
         else None)"

definition is_radix_digit :: "nat \<Rightarrow> char \<Rightarrow> bool" where
  "is_radix_digit R c = (case digit_value c of None \<Rightarrow> False | Some d \<Rightarrow> d < R)"

definition parseInt :: "string \<Rightarrow> int option" where
  \<comment> \<open>\<^verbatim>\<open>parseInt(string)\<close> without a radix; \<open>None\<close> is NaN\<close>
  "parseInt inputString =
     (let S = dropWhile isWhiteSpace inputString;
          sign = (if take 1 S = ''-'' then - 1 else (1::int));
          S1 = (if take 1 S = ''-'' \<or> take 1 S = ''+'' then drop 1 S else S);
          hex = (take 2 S1 = ''0x'' \<or> take 2 S1 = ''0X'');
          R = (if hex then 16 else (10::nat));
          S2 = (if hex then drop 2 S1 else S1);
          Z = takeWhile (is_radix_digit R) S2
      in if Z = [] then None
         else Some (sign * int (foldl (\<lambda>acc c. acc * R + the (digit_value c)) 0 Z)))"

subsection \<open>Utils\<close>

definition escape_char :: "char \<Rightarrow> string" where
  "escape_char c =
     (if c = CHR ''&'' then ''&amp;''
      else if c = CHR ''<'' then ''&lt;''
      else if c = CHR ''>'' then ''&gt;''
      else if c = CHR 0xA0 then ''&nbsp;''
      else [c])"

definition escapeHtml :: "string \<Rightarrow> string" where
  \<comment> \<open>\<^verbatim>\<open>div.textContent = text; return div.innerHTML\<close>: the serialisation of a text node,
      which replaces the ampersand, the two angle brackets and the no-break space\<close>
  "escapeHtml text = concat (map escape_char text)"

definition getDayIndex :: "string \<Rightarrow> int" where
  "getDayIndex dayName = indexOf DAYS (toLowerCase dayName)"

definition getNextDay :: "string \<Rightarrow> string" where
  \<comment> \<open>the index read is one of 0 to 6 for every string, see \<open>getNextDay_index\<close> below\<close>
  "getNextDay currentDay =
     (let idx = getDayIndex currentDay
      in DAYS ! nat (js_rem (idx + 1) (int (length DAYS))))"

definition array_read :: "'a list \<Rightarrow> int \<Rightarrow> 'a option" where
  \<comment> \<open>\<^verbatim>\<open>xs[k]\<close> for an integer \<open>k\<close>: outside the array the value is \<^verbatim>\<open>undefined\<close>, here \<open>None\<close>\<close>
  "array_read xs k = (if 0 \<le> k \<and> k < int (length xs) then Some (xs ! nat k) else None)"

definition getDayAhead :: "string \<Rightarrow> int \<Rightarrow> string option" where
  \<comment> \<open>\<open>None\<close> is \<^verbatim>\<open>undefined\<close>, the result when \<open>idx + daysAhead\<close> is negative and no multiple
      of 7\<close>
  "getDayAhead currentDay daysAhead =
     (let idx = getDayIndex currentDay
      in array_read DAYS (js_rem (idx + daysAhead) (int (length DAYS))))"

subsection \<open>Validator\<close>

datatype error =
    EmptyTitle            \<comment> \<open>Task title is required\<close>
  | TitleTooLong          \<comment> \<open>Title too long (max 100 characters)\<close>
  | MarkupNotAllowed      \<comment> \<open>HTML tags are not allowed\<close>
  | NotANumber            \<comment> \<open>Duration must be a number\<close>
  | NonPositiveDuration   \<comment> \<open>Duration must be positive\<close>
  | DurationTooLarge      \<comment> \<open>Duration cannot exceed 1440 minutes (24 hours)\<close>
  | TaskNotFound          \<comment> \<open>Task not found\<close>
  | IllegalTransition     \<comment> \<open>Completed tasks cannot be marked as missed\<close>
  | TypeError             \<comment> \<open>a property read on \<^verbatim>\<open>undefined\<close>\<close>

definition htmlRegex_test :: "string \<Rightarrow> bool" where
  \<comment> \<open>the pattern \<^verbatim>\<open>/<[^>]*>/\<close>: some \<^verbatim>\<open><\<close> with a \<^verbatim>\<open>>\<close> anywhere after it\<close>
  "htmlRegex_test s = (CHR ''>'' \<in> set (dropWhile (\<lambda>c. c \<noteq> CHR ''<'') s))"

definition validateTaskTitle :: "string \<Rightarrow> error + string" where
  "validateTaskTitle ttl =
     (if ttl = [] \<or> length (trim ttl) = 0 then Inl EmptyTitle
      else if length ttl > MAX_TITLE_LENGTH then Inl TitleTooLong
      else if htmlRegex_test ttl then Inl MarkupNotAllowed
      else Inr (escapeHtml (trim ttl)))"

definition validateDuration :: "string \<Rightarrow> error + int" where
  "validateDuration dur =
     (case parseInt dur of
        None \<Rightarrow> Inl NotANumber
      | Some num \<Rightarrow>
          if num \<le> 0 then Inl NonPositiveDuration
          else if num > MAX_TASK_DURATION then Inl DurationTooLarge
          else Inr num)"

subsection \<open>The store and IDGenerator\<close>

record task =
  task_id :: string
  title :: string
  duration :: int
  day :: string
  status :: string
  addedDate :: string

record store =
  tasks :: "task list"
  dailyLimit :: int
  counter :: nat

definition empty_store :: store where
  \<comment> \<open>\<^verbatim>\<open>AppStorage.studyData\<close> at start and after \<^verbatim>\<open>reset\<close>, with the counter of
      \<^verbatim>\<open>IDGenerator\<close> at its initial value\<close>
  "empty_store = \<lparr>tasks = [], dailyLimit = DEFAULT_DAILY_LIMIT, counter = 1\<rparr>"

definition generate :: "nat \<Rightarrow> store \<Rightarrow> string \<times> store" where
  \<comment> \<open>\<open>now\<close> is the value of \<^verbatim>\<open>Date.now()\<close>\<close>
  "generate now s =
     (''task_'' @ show_nat now @ ''_'' @ show_nat (counter s), s\<lparr>counter := counter s + 1\<rparr>)"

subsection \<open>TaskManager\<close>

datatype notification =
    WarnUnableToFit string   \<comment> \<open>Unable to fit all tasks. Some days exceed daily limit.\<close>
  | WarnCannotBalance        \<comment> \<open>Cannot balance schedule. Please review your tasks.\<close>
  | SuccessRescheduled string  \<comment> \<open>Task rescheduled to (name of the day)\<close>

definition calculateDayTime :: "store \<Rightarrow> string \<Rightarrow> int" where
  "calculateDayTime s dayName =
     foldl (\<lambda>sum t. sum + duration t) 0
       (filter (\<lambda>t. day t = toLowerCase dayName \<and> status t \<noteq> STATUS_MISSED) (tasks s))"

definition getTasksByDay :: "store \<Rightarrow> string \<Rightarrow> task list" where
  "getTasksByDay s dayName = filter (\<lambda>t. day t = toLowerCase dayName) (tasks s)"

definition select_task :: "task list \<Rightarrow> string \<Rightarrow> int \<Rightarrow> nat option" where
  \<comment> \<open>The filter, the sort (\<^verbatim>\<open>Array.prototype.sort\<close> is stable; the comparator orders by
      duration descending) and the scan from the last position down of one iteration of
      \<^verbatim>\<open>autoBalance\<close>; the result is the store index of the task object the scan stops at.\<close>
  "select_task ts currentDay excess =
     (let dayTasks = filter (\<lambda>(i, t). day t = currentDay \<and> status t \<noteq> STATUS_MISSED)
                       (enumerate 0 ts);
          sorted = sort_key (\<lambda>(i, t). - duration t) dayTasks
      in map_option fst
           (find (\<lambda>(i, t). status t = STATUS_NOT_COMPLETED \<and> duration t \<le> excess)
              (rev sorted)))"

definition move_task :: "store \<Rightarrow> nat \<Rightarrow> string \<Rightarrow> store" where
  \<comment> \<open>\<^verbatim>\<open>task.day = ...\<close> through the reference\<close>
  "move_task s i d = s\<lparr>tasks := (tasks s)[i := (tasks s ! i)\<lparr>day := d\<rparr>]\<rparr>"

function autoBalance_loop ::
  "store \<Rightarrow> string \<Rightarrow> nat \<Rightarrow> store \<times> nat \<times> nat list \<times> notification list" where
  "autoBalance_loop s currentDay attemptCount =
     (if attemptCount < MAX_BALANCE_ATTEMPTS then
        (let totalTime = calculateDayTime s currentDay
         in if totalTime \<le> dailyLimit s then (s, attemptCount, [], [])
            else
              (let excess = totalTime - dailyLimit s
               in case select_task (tasks s) currentDay excess of
                    None \<Rightarrow> (s, attemptCount, [], [WarnUnableToFit currentDay])
                  | Some i \<Rightarrow>
                      (case autoBalance_loop (move_task s i (getNextDay currentDay))
                              (getNextDay currentDay) (attemptCount + 1) of
                         (s', n, moved, notes) \<Rightarrow> (s', n, i # moved, notes))))
      else (s, attemptCount, [], []))"
  by pat_completeness auto
termination
  by (relation "measure (\<lambda>(s, d, a). MAX_BALANCE_ATTEMPTS - a)") auto

declare autoBalance_loop.simps [simp del]

definition autoBalance :: "store \<Rightarrow> string \<Rightarrow> store \<times> nat list \<times> notification list" where
  \<comment> \<open>The result is the store, the store indices of the tasks reassigned (one entry per
      iteration that moved a task, in order) and the notifications shown.\<close>
  "autoBalance s originalDay =
     (case autoBalance_loop s (toLowerCase originalDay) 0 of
        (s', attemptCount, moved, notes) \<Rightarrow>
          (s', moved,
           if attemptCount \<ge> MAX_BALANCE_ATTEMPTS then notes @ [WarnCannotBalance]
           else notes))"

definition rescheduleTask ::
  "store \<Rightarrow> task \<Rightarrow> nat \<Rightarrow> string \<Rightarrow> (error + unit) \<times> store \<times> notification list" where
  \<comment> \<open>\<open>now\<close> is \<^verbatim>\<open>Date.now()\<close> and \<open>stamp\<close> is \<^verbatim>\<open>new Date().toISOString()\<close>. The day read
      3 places ahead is defined for every day string (\<open>getDayAhead_reschedule\<close> below), so
      the first branch, which stands for a task created with the day \<^verbatim>\<open>undefined\<close>, is never
      taken.\<close>
  "rescheduleTask s originalTask now stamp =
     (case getDayAhead (day originalTask) RESCHEDULE_DAYS_AHEAD of
        None \<Rightarrow> (Inl TypeError, s, [])
      | Some newDay \<Rightarrow>
          (let (new_id, s1) = generate now s;
               newTask = \<lparr>task_id = new_id,
                          title = ''RESCHEDULED: '' @ title originalTask,
                          duration = duration originalTask,
                          day = newDay,
                          status = STATUS_NOT_COMPLETED,
                          addedDate = stamp\<rparr>;
               s2 = s1\<lparr>tasks := tasks s1 @ [newTask]\<rparr>;
               (s3, moved, notes) = autoBalance s2 newDay
           in case map_of DAYS_CONFIG newDay of
                None \<Rightarrow> (Inl TypeError, s3, notes)
              | Some newDayName \<Rightarrow> (Inr (), s3, notes @ [SuccessRescheduled newDayName])))"

definition addTask ::
  "store \<Rightarrow> string \<Rightarrow> string \<Rightarrow> string \<Rightarrow> string \<Rightarrow> nat \<Rightarrow> string \<Rightarrow>
     (error + task) \<times> store \<times> notification list" where
  \<comment> \<open>The value returned is the task object created, as it is after \<^verbatim>\<open>autoBalance\<close>.\<close>
  "addTask s ttl dur d st now stamp =
     (case validateTaskTitle ttl of
        Inl e \<Rightarrow> (Inl e, s, [])
      | Inr title_value \<Rightarrow>
          (case validateDuration dur of
             Inl e \<Rightarrow> (Inl e, s, [])
           | Inr duration_value \<Rightarrow>
               (let (new_id, s1) = generate now s;
                    t = \<lparr>task_id = new_id,
                         title = title_value,
                         duration = duration_value,
                         day = toLowerCase d,
                         status = st,
                         addedDate = stamp\<rparr>;
                    s2 = s1\<lparr>tasks := tasks s1 @ [t]\<rparr>;
                    (s3, moved, notes) = autoBalance s2 d
                in (Inr (tasks s3 ! length (tasks s1)), s3, notes))))"

definition deleteTask :: "store \<Rightarrow> string \<Rightarrow> bool \<times> store" where
  "deleteTask s taskId =
     (let index = findIndex (\<lambda>t. task_id t = taskId) (tasks s)
      in if index > - 1
         then (True, s\<lparr>tasks := take (nat index) (tasks s) @ drop (nat index + 1) (tasks s)\<rparr>)
         else (False, s))"

definition updateStatus ::
  "store \<Rightarrow> string \<Rightarrow> string \<Rightarrow> nat \<Rightarrow> string \<Rightarrow>
     (error + bool) \<times> store \<times> notification list" where
  "updateStatus s taskId newStatus now stamp =
     (let index = findIndex (\<lambda>t. task_id t = taskId) (tasks s)
      in if index < 0 then (Inl TaskNotFound, s, [])
         else
           (let i = nat index
            in if status (tasks s ! i) = STATUS_COMPLETED \<and> newStatus = STATUS_MISSED
               then (Inl IllegalTransition, s, [])
               else
                 (let s1 = s\<lparr>tasks := (tasks s)[i := (tasks s ! i)\<lparr>status := newStatus\<rparr>]\<rparr>
                  in if newStatus = STATUS_MISSED
                     then (case rescheduleTask s1 (tasks s1 ! i) now stamp of
                             (Inl e, s2, notes) \<Rightarrow> (Inl e, s2, notes)
                           | (Inr u, s2, notes) \<Rightarrow> (Inr True, s2, notes))
                     else (Inr True, s1, []))))"

subsection \<open>Sequences of operations and the invariant of the store\<close>

datatype operation =
    AddTask string string string string nat string
  | DeleteTask string
  | UpdateStatus string string nat string

fun apply_operation :: "store \<Rightarrow> operation \<Rightarrow> store" where
  "apply_operation s (AddTask ttl dur d st now stamp) =
     fst (snd (addTask s ttl dur d st now stamp))"
| "apply_operation s (DeleteTask taskId) = snd (deleteTask s taskId)"
| "apply_operation s (UpdateStatus taskId newStatus now stamp) =
     fst (snd (updateStatus s taskId newStatus now stamp))"

definition run :: "store \<Rightarrow> operation list \<Rightarrow> store" where
  "run s ops = foldl apply_operation s ops"

definition valid_task :: "task \<Rightarrow> bool" where
  "valid_task t = (day t \<in> set DAYS \<and> 1 \<le> duration t \<and> duration t \<le> 1440)"

definition store_invariant :: "store \<Rightarrow> bool" where
  "store_invariant s = (list_all valid_task (tasks s) \<and> distinct (map task_id (tasks s)))"

fun day_argument_valid :: "operation \<Rightarrow> bool" where
  "day_argument_valid (AddTask ttl dur d st now stamp) = (toLowerCase d \<in> set DAYS)"
| "day_argument_valid (DeleteTask taskId) = True"
| "day_argument_valid (UpdateStatus taskId newStatus now stamp) = True"

subsection \<open>Stores used as examples\<close>


definition completed_task_store :: store where
  \<comment> \<open>one task, on Monday, completed\<close>
  "completed_task_store =
     \<lparr>tasks = [\<lparr>task_id = ''task_5_1'', title = ''essay'', duration = 100, day = ''monday'',
                status = ''completed'', addedDate = ''2026-01-05T08:00:00.000Z''\<rparr>],
      dailyLimit = 150, counter = 2\<rparr>"

definition three_task_store :: store where
  \<comment> \<open>Monday after tasks of 100, 50 and 1000 minutes were pushed, before balancing\<close>
  "three_task_store =
     \<lparr>tasks = [\<lparr>task_id = ''task_5_1'', title = ''essay'', duration = 100, day = ''monday'',
                status = ''not-completed'', addedDate = ''2026-01-05T08:00:00.000Z''\<rparr>,
               \<lparr>task_id = ''task_6_2'', title = ''quiz'', duration = 50, day = ''monday'',
                status = ''not-completed'', addedDate = ''2026-01-05T08:01:00.000Z''\<rparr>,
               \<lparr>task_id = ''task_7_3'', title = ''project'', duration = 1000, day = ''monday'',
                status = ''not-completed'', addedDate = ''2026-01-05T08:02:00.000Z''\<rparr>],
      dailyLimit = 150, counter = 4\<rparr>"

definition thursday_full_store :: store where
  \<comment> \<open>a task of 1000 minutes on Thursday and one of 100 minutes on Monday, as two calls of
      \<^verbatim>\<open>addTask\<close> leave them\<close>
  "thursday_full_store =
     \<lparr>tasks = [\<lparr>task_id = ''task_5_1'', title = ''project'', duration = 1000,
                day = ''thursday'', status = ''not-completed'',
                addedDate = ''2026-01-05T08:00:00.000Z''\<rparr>,
               \<lparr>task_id = ''task_6_2'', title = ''essay'', duration = 100, day = ''monday'',
                status = ''not-completed'', addedDate = ''2026-01-05T08:01:00.000Z''\<rparr>],
      dailyLimit = 150, counter = 3\<rparr>"

subsection \<open>Notions used in the proofs\<close>

definition erase_day :: "task \<Rightarrow> task" where
  \<comment> \<open>a task with its day blanked: two tasks that differ at most in the day have the same image\<close>
  "erase_day t = t\<lparr>day := []\<rparr>"

definition sorted_order :: "nat \<times> task \<Rightarrow> nat \<times> task \<Rightarrow> bool" where
  \<comment> \<open>the order of the sorted copy: longer tasks first, tasks of equal duration in store order\<close>
  "sorted_order x y =
     (duration (snd y) < duration (snd x) \<or>
      duration (snd x) = duration (snd y) \<and> fst x < fst y)"

definition is_decimal :: "char \<Rightarrow> bool" where
  \<comment> \<open>the digits 0 to 9\<close>
  "is_decimal c = (48 \<le> (of_char c :: nat) \<and> (of_char c :: nat) \<le> 57)"

fun day_argument :: "operation \<Rightarrow> string list" where
  \<comment> \<open>the day an operation stores, as it stores it\<close>
  "day_argument (AddTask ttl dur d st now stamp) = [toLowerCase d]"
| "day_argument (DeleteTask taskId) = []"
| "day_argument (UpdateStatus taskId newStatus now stamp) = []"

definition day_arguments :: "operation list \<Rightarrow> string list" where
  "day_arguments ops = concat (map day_argument ops)"

definition issued_id :: "nat \<Rightarrow> string \<Rightarrow> bool" where
  \<comment> \<open>an identifier that \<^verbatim>\<open>IDGenerator\<close> produced before its counter reached \<open>c\<close>\<close>
  "issued_id c tid =
     (\<exists>now k. k < c \<and> tid = ''task_'' @ show_nat now @ ''_'' @ show_nat k)"

definition ids_issued :: "store \<Rightarrow> bool" where
  "ids_issued s = (\<forall>t\<in>set (tasks s). issued_id (counter s) (task_id t))"

definition full_invariant :: "string set \<Rightarrow> store \<Rightarrow> bool" where
  \<comment> \<open>what every operation preserves: durations within bounds, distinct identifiers, all
      of them issued by the generator, and every day a day of the week or one of \<open>D\<close>\<close>
  "full_invariant D s =
     ((\<forall>t\<in>set (tasks s).
         (day t \<in> set DAYS \<or> day t \<in> D) \<and> 1 \<le> duration t \<and> duration t \<le> 1440) \<and>
      distinct (map task_id (tasks s)) \<and> ids_issued s)"

section \<open>Calendar utilities\<close>

lemma findIndex_bounds: "- 1 \<le> findIndex p xs \<and> findIndex p xs < int (length xs)"
  by (induction xs) (auto simp: Let_def)

lemma findIndex_absent: "(findIndex p xs < 0) = (\<forall>x\<in>set xs. \<not> p x)"
  using findIndex_bounds [of p] by (induction xs) (auto simp: Let_def)

lemma findIndex_absent_val: "\<forall>x\<in>set xs. \<not> p x \<Longrightarrow> findIndex p xs = - 1"
  using findIndex_absent [of p xs] findIndex_bounds [of p xs] by auto

lemma findIndex_found:
  "0 \<le> findIndex p xs \<Longrightarrow>
     nat (findIndex p xs) < length xs \<and> p (xs ! nat (findIndex p xs)) \<and>
     (\<forall>j < nat (findIndex p xs). \<not> p (xs ! j))"
proof (induction xs)
  case Nil
  then show ?case by simp
next
  case (Cons y ys)
  show ?case
  proof (cases "p y")
    case True
    then show ?thesis by simp
  next
    case False
    with Cons.prems have nn: "0 \<le> findIndex p ys"
      by (auto simp: Let_def split: if_splits)
    with False have eq: "findIndex p (y # ys) = findIndex p ys + 1"
      by (simp add: Let_def)
    from Cons.IH [OF nn] have ih: "nat (findIndex p ys) < length ys"
      "p (ys ! nat (findIndex p ys))" "\<forall>j < nat (findIndex p ys). \<not> p (ys ! j)" by auto
    have n: "nat (findIndex p ys + 1) = Suc (nat (findIndex p ys))" using nn by simp
    show ?thesis unfolding eq n using ih False
      by (auto simp: less_Suc_eq_0_disj)
  qed
qed

lemma toLowerCase_char_idem: "toLowerCase_char (toLowerCase_char c) = toLowerCase_char c"
proof -
  define n where "n = (of_char c :: nat)"
  show ?thesis
  proof (cases "(65 \<le> n \<and> n \<le> 90) \<or> (192 \<le> n \<and> n \<le> 222 \<and> n \<noteq> 215)")
    case True
    then have lt: "n + 32 < 256" by arith
    have "(of_char (char_of (n + 32)) :: nat) = (n + 32) mod 256" by (rule of_char_of)
    with lt have eq: "(of_char (char_of (n + 32)) :: nat) = n + 32" by simp
    have c1: "toLowerCase_char c = char_of (n + 32)"
      using True by (simp add: toLowerCase_char_def n_def Let_def)
    have "toLowerCase_char (char_of (n + 32)) = char_of (n + 32)"
      unfolding toLowerCase_char_def Let_def eq using True by auto
    with c1 show ?thesis by simp
  next
    case False
    then have "toLowerCase_char c = c"
      unfolding toLowerCase_char_def n_def Let_def by auto
    then show ?thesis by simp
  qed
qed

lemma toLowerCase_idem: "toLowerCase (toLowerCase s) = toLowerCase s"
  by (simp add: toLowerCase_def toLowerCase_char_idem)

lemma length_DAYS: "length DAYS = 7"
  by (simp add: DAYS_def)

lemma toLowerCase_DAYS: "d \<in> set DAYS \<Longrightarrow> toLowerCase d = d"
  by (auto simp: DAYS_def toLowerCase_def toLowerCase_char_def)

lemma getDayIndex_bounds: "- 1 \<le> getDayIndex d \<and> getDayIndex d \<le> 6"
  using findIndex_bounds [of "\<lambda>y. y = toLowerCase d" DAYS]
  by (simp add: getDayIndex_def indexOf_def length_DAYS)

text \<open>
  Claim C9, as amended. \<^verbatim>\<open>getDayIndex\<close> lowercases its argument and looks it up in the fixed
  week. When the lowercased token is one of the seven days the result is its position, an
  integer from 0 to 6. When it is not, the result is the integer \<open>-1\<close>: the function returns
  a value and raises nothing.
\<close>

theorem getDayIndex_total:
  "(toLowerCase dayName \<in> set DAYS \<longrightarrow>
      0 \<le> getDayIndex dayName \<and> getDayIndex dayName \<le> 6 \<and>
      DAYS ! nat (getDayIndex dayName) = toLowerCase dayName \<and>
      (\<forall>j < nat (getDayIndex dayName). DAYS ! j \<noteq> toLowerCase dayName)) \<and>
   (toLowerCase dayName \<notin> set DAYS \<longrightarrow> getDayIndex dayName = - 1)"
proof (intro conjI impI)
  assume "toLowerCase dayName \<notin> set DAYS"
  then show "getDayIndex dayName = - 1"
    unfolding getDayIndex_def indexOf_def by (intro findIndex_absent_val) auto
next
  assume m: "toLowerCase dayName \<in> set DAYS"
  then have "\<not> (findIndex (\<lambda>y. y = toLowerCase dayName) DAYS < 0)"
    unfolding findIndex_absent by auto
  then have nn: "0 \<le> getDayIndex dayName"
    by (simp add: getDayIndex_def indexOf_def)
  then show "0 \<le> getDayIndex dayName" .
  show "getDayIndex dayName \<le> 6" using getDayIndex_bounds by simp
  from nn findIndex_found [of "\<lambda>y. y = toLowerCase dayName" DAYS]
  show "DAYS ! nat (getDayIndex dayName) = toLowerCase dayName"
    and "\<forall>j < nat (getDayIndex dayName). DAYS ! j \<noteq> toLowerCase dayName"
    by (auto simp: getDayIndex_def indexOf_def)
qed

theorem getDayIndex_total_witness:
  "toLowerCase ''Tuesday'' \<in> set DAYS \<and> getDayIndex ''Tuesday'' = 1 \<and>
   DAYS ! nat (getDayIndex ''Tuesday'') = ''tuesday'' \<and>
   toLowerCase ''funday'' \<notin> set DAYS \<and> getDayIndex ''funday'' = - 1"
proof -
  have a: "toLowerCase ''Tuesday'' \<in> set DAYS" by code_simp
  have b: "toLowerCase ''funday'' \<notin> set DAYS" by code_simp
  have c: "getDayIndex ''Tuesday'' = 1" by code_simp
  have d: "toLowerCase ''Tuesday'' = ''tuesday''" by code_simp
  from a b c d getDayIndex_total [of "''Tuesday''"] getDayIndex_total [of "''funday''"]
  show ?thesis by simp
qed

text \<open>
  Claim C9 as stated asks for a failure on an unrecognised token. The token \<open>funday\<close> is
  not a day of the week, and \<^verbatim>\<open>getDayIndex\<close> returns \<open>-1\<close> for it.
\<close>

theorem getDayIndex_unrecognized_counterexample:
  "toLowerCase ''funday'' \<notin> set DAYS \<and> getDayIndex ''funday'' = - 1"
  by code_simp

section \<open>Auto-balance: the loop, one case at a time\<close>

lemma loop_done:
  "\<not> attemptCount < MAX_BALANCE_ATTEMPTS \<Longrightarrow>
   autoBalance_loop s currentDay attemptCount = (s, attemptCount, [], [])"
  by (simp add: autoBalance_loop.simps)

lemma loop_balanced:
  "attemptCount < MAX_BALANCE_ATTEMPTS \<Longrightarrow> calculateDayTime s currentDay \<le> dailyLimit s \<Longrightarrow>
   autoBalance_loop s currentDay attemptCount = (s, attemptCount, [], [])"
  by (simp add: autoBalance_loop.simps)

lemma loop_stuck:
  "attemptCount < MAX_BALANCE_ATTEMPTS \<Longrightarrow> \<not> calculateDayTime s currentDay \<le> dailyLimit s \<Longrightarrow>
   select_task (tasks s) currentDay (calculateDayTime s currentDay - dailyLimit s) = None \<Longrightarrow>
   autoBalance_loop s currentDay attemptCount = (s, attemptCount, [], [WarnUnableToFit currentDay])"
  by (simp add: autoBalance_loop.simps)

lemma loop_move_result:
  "attemptCount < MAX_BALANCE_ATTEMPTS \<Longrightarrow> \<not> calculateDayTime s currentDay \<le> dailyLimit s \<Longrightarrow>
   select_task (tasks s) currentDay (calculateDayTime s currentDay - dailyLimit s) = Some i \<Longrightarrow>
   autoBalance_loop (move_task s i (getNextDay currentDay)) (getNextDay currentDay)
     (attemptCount + 1) = (s1, n1, m1, e1) \<Longrightarrow>
   autoBalance_loop s currentDay attemptCount = (s1, n1, i # m1, e1)"
  by (subst autoBalance_loop.simps) simp

lemma loop_induct [case_names finished balanced stuck move]:
  assumes "\<And>s d a. \<not> a < MAX_BALANCE_ATTEMPTS \<Longrightarrow> P s d a"
    and "\<And>s d a. a < MAX_BALANCE_ATTEMPTS \<Longrightarrow> calculateDayTime s d \<le> dailyLimit s \<Longrightarrow> P s d a"
    and "\<And>s d a. a < MAX_BALANCE_ATTEMPTS \<Longrightarrow> \<not> calculateDayTime s d \<le> dailyLimit s \<Longrightarrow>
           select_task (tasks s) d (calculateDayTime s d - dailyLimit s) = None \<Longrightarrow> P s d a"
    and "\<And>s d a i. a < MAX_BALANCE_ATTEMPTS \<Longrightarrow> \<not> calculateDayTime s d \<le> dailyLimit s \<Longrightarrow>
           select_task (tasks s) d (calculateDayTime s d - dailyLimit s) = Some i \<Longrightarrow>
           P (move_task s i (getNextDay d)) (getNextDay d) (a + 1) \<Longrightarrow> P s d a"
  shows "P s d a"
proof (induction s d a rule: autoBalance_loop.induct)
  case (1 s d a)
  show ?case
  proof (cases "a < MAX_BALANCE_ATTEMPTS")
    case False
    then show ?thesis by (rule assms(1))
  next
    case lt: True
    show ?thesis
    proof (cases "calculateDayTime s d \<le> dailyLimit s")
      case True
      with lt show ?thesis by (rule assms(2))
    next
      case over: False
      show ?thesis
      proof (cases "select_task (tasks s) d (calculateDayTime s d - dailyLimit s)")
        case None
        with lt over show ?thesis by (rule assms(3))
      next
        case (Some i)
        from "1.IH" [OF lt refl over refl Some]
        have "P (move_task s i (getNextDay d)) (getNextDay d) (a + 1)" .
        with lt over Some show ?thesis by (rule assms(4))
      qed
    qed
  qed
qed

section \<open>Auto-balance: what every run leaves alone\<close>

lemma erase_day_move: "erase_day (t\<lparr>day := d\<rparr>) = erase_day t"
  by (simp add: erase_day_def)

lemma move_task_frame:
  "dailyLimit (move_task s i d) = dailyLimit s"
  "counter (move_task s i d) = counter s"
  "length (tasks (move_task s i d)) = length (tasks s)"
  "map erase_day (tasks (move_task s i d)) = map erase_day (tasks s)"
proof -
  have "map erase_day ((tasks s)[i := (tasks s ! i)\<lparr>day := d\<rparr>]) =
        map erase_day ((tasks s)[i := tasks s ! i])"
    unfolding map_update erase_day_move ..
  then show "map erase_day (tasks (move_task s i d)) = map erase_day (tasks s)"
    by (simp add: move_task_def)
qed (simp_all add: move_task_def)

lemma loop_frame:
  "autoBalance_loop s d a = (s', n, moved, evs) \<Longrightarrow>
   dailyLimit s' = dailyLimit s \<and> counter s' = counter s \<and>
   map erase_day (tasks s') = map erase_day (tasks s)"
proof (induction s d a arbitrary: s' n moved evs rule: loop_induct)
  case (finished s d a)
  then show ?case by (simp add: loop_done)
next
  case (balanced s d a)
  then show ?case by (simp add: loop_balanced)
next
  case (stuck s d a)
  then show ?case by (simp add: loop_stuck)
next
  case (move s d a i)
  obtain s1 n1 m1 e1 where
    r: "autoBalance_loop (move_task s i (getNextDay d)) (getNextDay d) (a + 1) = (s1, n1, m1, e1)"
    by (metis prod_cases4)
  from move.prems have "s' = s1"
    by (simp add: loop_move_result [OF move.hyps r])
  with move.IH [OF r] show ?case by (simp add: move_task_frame)
qed

lemma loop_moved_count:
  "autoBalance_loop s d a = (s', n, moved, evs) \<Longrightarrow>
   n = a + length moved \<and> length moved \<le> MAX_BALANCE_ATTEMPTS - a"
proof (induction s d a arbitrary: s' n moved evs rule: loop_induct)
  case (finished s d a)
  then show ?case by (simp add: loop_done)
next
  case (balanced s d a)
  then show ?case by (simp add: loop_balanced)
next
  case (stuck s d a)
  then show ?case by (simp add: loop_stuck)
next
  case (move s d a i)
  obtain s1 n1 m1 e1 where
    r: "autoBalance_loop (move_task s i (getNextDay d)) (getNextDay d) (a + 1) = (s1, n1, m1, e1)"
    by (metis prod_cases4)
  from move.prems have eq: "n = n1" "moved = i # m1"
    by (simp_all add: loop_move_result [OF move.hyps r])
  from move.IH [OF r] move.hyps(1) show ?case unfolding eq by auto
qed

lemma loop_untouched:
  "autoBalance_loop s d a = (s', n, moved, evs) \<Longrightarrow> j \<notin> set moved \<Longrightarrow>
   tasks s' ! j = tasks s ! j"
proof (induction s d a arbitrary: s' n moved evs rule: loop_induct)
  case (finished s d a)
  then show ?case by (simp add: loop_done)
next
  case (balanced s d a)
  then show ?case by (simp add: loop_balanced)
next
  case (stuck s d a)
  then show ?case by (simp add: loop_stuck)
next
  case (move s d a i)
  obtain s1 n1 m1 e1 where
    r: "autoBalance_loop (move_task s i (getNextDay d)) (getNextDay d) (a + 1) = (s1, n1, m1, e1)"
    by (metis prod_cases4)
  from move.prems(1) have eq: "s' = s1" "moved = i # m1"
    by (simp_all add: loop_move_result [OF move.hyps r])
  from move.prems(2) eq have ji: "j \<noteq> i" and jm: "j \<notin> set m1" by auto
  from move.IH [OF r jm] have "tasks s1 ! j = tasks (move_task s i (getNextDay d)) ! j" .
  also have "\<dots> = tasks s ! j" using ji by (simp add: move_task_def)
  finally show ?case using eq by simp
qed

lemma autoBalance_frame:
  "autoBalance s d = (s', moved, evs) \<Longrightarrow>
   dailyLimit s' = dailyLimit s \<and> counter s' = counter s \<and>
   map erase_day (tasks s') = map erase_day (tasks s)"
  unfolding autoBalance_def
  by (auto split: prod.splits dest: loop_frame)

lemma same_erased_length:
  "map erase_day xs = map erase_day ys \<Longrightarrow> length xs = length ys"
  by (rule map_eq_imp_length_eq)

text \<open>
  Claim C2. For every store and every starting day \<^verbatim>\<open>autoBalance\<close> returns (the loop is a
  total function, its measure being the attempts left), it reassigns a task in at most 7
  iterations, one task per iteration, and the task list it leaves has the same length and
  differs from the one it found at no more than 7 positions.
\<close>

theorem autoBalance_bounded:
  "\<exists>s' moved evs.
     autoBalance s originalDay = (s', moved, evs) \<and>
     length moved \<le> 7 \<and>
     length (tasks s') = length (tasks s) \<and>
     card {j. j < length (tasks s) \<and> tasks s' ! j \<noteq> tasks s ! j} \<le> 7"
proof -
  obtain s' n moved evs where
    r: "autoBalance_loop s (toLowerCase originalDay) 0 = (s', n, moved, evs)"
    by (metis prod_cases4)
  from loop_moved_count [OF r] have len: "length moved \<le> 7"
    by (simp add: MAX_BALANCE_ATTEMPTS_def)
  from loop_frame [OF r] have l: "length (tasks s') = length (tasks s)"
    by (auto dest: same_erased_length)
  have sub: "{j. j < length (tasks s) \<and> tasks s' ! j \<noteq> tasks s ! j} \<subseteq> set moved"
    using loop_untouched [OF r] by auto
  have "card {j. j < length (tasks s) \<and> tasks s' ! j \<noteq> tasks s ! j} \<le> card (set moved)"
    by (rule card_mono [OF _ sub]) simp
  also have "\<dots> \<le> length moved" by (rule card_length)
  finally have c: "card {j. j < length (tasks s) \<and> tasks s' ! j \<noteq> tasks s ! j} \<le> 7"
    using len by simp
  show ?thesis using r len l c by (simp add: autoBalance_def)
qed

section \<open>Auto-balance with a zero limit\<close>

lemma getNextDay_index:
  "0 \<le> js_rem (getDayIndex d + 1) (int (length DAYS)) \<and>
   js_rem (getDayIndex d + 1) (int (length DAYS)) < int (length DAYS)"
  using getDayIndex_bounds [of d] by (simp add: js_rem_def length_DAYS sgn_if)

lemma getDayAhead_index:
  "0 \<le> js_rem (getDayIndex d + RESCHEDULE_DAYS_AHEAD) (int (length DAYS)) \<and>
   js_rem (getDayIndex d + RESCHEDULE_DAYS_AHEAD) (int (length DAYS)) < int (length DAYS)"
  using getDayIndex_bounds [of d]
  by (simp add: js_rem_def length_DAYS sgn_if RESCHEDULE_DAYS_AHEAD_def)

lemma getNextDay_in_DAYS: "getNextDay d \<in> set DAYS"
proof -
  have "getDayIndex d \<in> {- 1, 0, 1, 2, 3, 4, 5, 6}"
    using getDayIndex_bounds [of d] by auto
  then show ?thesis
    unfolding getNextDay_def Let_def length_DAYS
    by (auto simp: js_rem_def DAYS_def)
qed

lemma getNextDay_table:
  "getNextDay ''monday'' = ''tuesday''"
  "getNextDay ''tuesday'' = ''wednesday''"
  "getNextDay ''wednesday'' = ''thursday''"
  "getNextDay ''thursday'' = ''friday''"
  "getNextDay ''friday'' = ''saturday''"
  "getNextDay ''saturday'' = ''sunday''"
  "getNextDay ''sunday'' = ''monday''"
  by code_simp+

lemma getNextDay_week: "d \<in> set DAYS \<Longrightarrow> (getNextDay ^^ 7) d = d"
  unfolding DAYS_def by (auto simp: eval_nat_numeral getNextDay_table)

lemma STATUS_distinct:
  "STATUS_NOT_COMPLETED \<noteq> STATUS_MISSED" "STATUS_COMPLETED \<noteq> STATUS_MISSED"
  "STATUS_NOT_COMPLETED \<noteq> STATUS_COMPLETED"
  by (simp_all add: STATUS_NOT_COMPLETED_def STATUS_MISSED_def STATUS_COMPLETED_def)

lemma single_task_step:
  assumes d: "d \<in> set DAYS" and t: "day t = d" "status t = STATUS_NOT_COMPLETED"
    and pos: "0 < duration t" and ts: "tasks s = [t]" and lim: "dailyLimit s = 0"
  shows "calculateDayTime s d = duration t"
    and "select_task (tasks s) d (calculateDayTime s d - dailyLimit s) = Some 0"
    and "move_task s 0 (getNextDay d) = s\<lparr>tasks := [t\<lparr>day := getNextDay d\<rparr>]\<rparr>"
proof -
  show c: "calculateDayTime s d = duration t"
    using t ts by (simp add: calculateDayTime_def toLowerCase_DAYS [OF d] STATUS_distinct)
  show "select_task (tasks s) d (calculateDayTime s d - dailyLimit s) = Some 0"
    unfolding c lim using t ts by (simp add: select_task_def STATUS_distinct)
  show "move_task s 0 (getNextDay d) = s\<lparr>tasks := [t\<lparr>day := getNextDay d\<rparr>]\<rparr>"
    using ts by (simp add: move_task_def)
qed

lemma single_task_loop:
  "a \<le> MAX_BALANCE_ATTEMPTS \<Longrightarrow> d \<in> set DAYS \<Longrightarrow> day t = d \<Longrightarrow>
   status t = STATUS_NOT_COMPLETED \<Longrightarrow> 0 < duration t \<Longrightarrow> tasks s = [t] \<Longrightarrow>
   dailyLimit s = 0 \<Longrightarrow>
   autoBalance_loop s d a =
     (s\<lparr>tasks := [t\<lparr>day := (getNextDay ^^ (MAX_BALANCE_ATTEMPTS - a)) d\<rparr>]\<rparr>,
      MAX_BALANCE_ATTEMPTS, replicate (MAX_BALANCE_ATTEMPTS - a) 0, [])"
proof (induction "MAX_BALANCE_ATTEMPTS - a" arbitrary: a d t s)
  case 0
  then have "\<not> a < MAX_BALANCE_ATTEMPTS" and "a = MAX_BALANCE_ATTEMPTS" by auto
  with 0 show ?case by (simp add: loop_done)
next
  case (Suc k)
  then have lt: "a < MAX_BALANCE_ATTEMPTS" and k: "k = MAX_BALANCE_ATTEMPTS - (a + 1)"
    and le: "a + 1 \<le> MAX_BALANCE_ATTEMPTS" by auto
  note st = single_task_step [OF Suc.prems(2-7)]
  have over: "\<not> calculateDayTime s d \<le> dailyLimit s"
    using st(1) Suc.prems by simp
  let ?t = "t\<lparr>day := getNextDay d\<rparr>"
  let ?s = "s\<lparr>tasks := [?t]\<rparr>"
  have r: "autoBalance_loop ?s (getNextDay d) (a + 1) =
     (?s\<lparr>tasks := [?t\<lparr>day := (getNextDay ^^ (MAX_BALANCE_ATTEMPTS - (a + 1))) (getNextDay d)\<rparr>]\<rparr>,
      MAX_BALANCE_ATTEMPTS, replicate (MAX_BALANCE_ATTEMPTS - (a + 1)) 0, [])"
    by (rule Suc.hyps(1) [OF k le getNextDay_in_DAYS])
       (use Suc.prems in simp_all)
  have m: "MAX_BALANCE_ATTEMPTS - a = Suc (MAX_BALANCE_ATTEMPTS - (a + 1))"
    using lt by simp
  show ?case
    using loop_move_result [OF lt over st(2), unfolded st(3), OF r]
    unfolding m by (simp add: funpow_swap1)
qed

lemma distinct_DAYS: "distinct DAYS"
  by (simp add: DAYS_def)

lemma week_index_cases:
  "m < 7 \<Longrightarrow> m = 0 \<or> m = 1 \<or> m = 2 \<or> m = 3 \<or> m = 4 \<or> m = 5 \<or> m = (6::nat)"
  by arith

lemma getNextDay_nth: "m < 7 \<Longrightarrow> getNextDay (DAYS ! m) = DAYS ! ((m + 1) mod 7)"
  by (drule week_index_cases) (auto simp: DAYS_def getNextDay_table)

lemma funpow_getNextDay_nth:
  "m < 7 \<Longrightarrow> (getNextDay ^^ k) (DAYS ! m) = DAYS ! ((m + k) mod 7)"
proof (induction k)
  case 0
  then show ?case by simp
next
  case (Suc k)
  have "(getNextDay ^^ Suc k) (DAYS ! m) = getNextDay (DAYS ! ((m + k) mod 7))"
    using Suc by simp
  also have "\<dots> = DAYS ! (((m + k) mod 7 + 1) mod 7)"
    by (rule getNextDay_nth) simp
  also have "((m + k) mod 7 + 1) mod 7 = (m + Suc k) mod 7"
    by (simp add: mod_Suc_eq)
  finally show ?case .
qed

lemma day_position:
  assumes "d \<in> set DAYS"
  shows "nat (getDayIndex d) < 7" and "DAYS ! nat (getDayIndex d) = d"
    and "0 \<le> getDayIndex d"
proof -
  have l: "toLowerCase d = d" by (rule toLowerCase_DAYS [OF assms])
  from getDayIndex_bounds [of d] findIndex_absent [of "\<lambda>y. y = toLowerCase d" DAYS] assms l
  have nn: "0 \<le> getDayIndex d" and le: "getDayIndex d \<le> 6"
    by (auto simp: getDayIndex_def indexOf_def)
  then show "nat (getDayIndex d) < 7" by simp
  show "0 \<le> getDayIndex d" by (rule nn)
  from findIndex_found [of "\<lambda>y. y = toLowerCase d" DAYS] nn l
  show "DAYS ! nat (getDayIndex d) = d"
    by (simp add: getDayIndex_def indexOf_def)
qed

lemma next_position_differs:
  "DAYS ! ((m + 1) mod 7) \<noteq> DAYS ! (m mod 7)"
proof
  assume e: "DAYS ! ((m + 1) mod 7) = DAYS ! (m mod 7)"
  have "(m + 1) mod 7 < length DAYS" "m mod 7 < length DAYS" by (simp_all add: length_DAYS)
  with e distinct_DAYS have "(m + 1) mod 7 = m mod 7"
    by (simp only: nth_eq_iff_index_eq)
  then show False by presburger
qed

text \<open>
  Claim C8. With \<^verbatim>\<open>dailyLimit\<close> 0 and a store holding exactly one task, of positive
  duration and status not-completed, on a day \<open>d\<close> of the week, \<^verbatim>\<open>autoBalance\<close> at \<open>d\<close>
  reassigns that task in each of 7 iterations, shows the "cannot balance" warning and
  nothing else, and leaves the task 7 days forward of \<open>d\<close>, which is \<open>d\<close> again. Iteration
  number \<open>j\<close> (counted from 0) finds the task on the day \<open>j\<close> places after \<open>d\<close> in the week,
  selects it, and reassigns it to the day \<open>j + 1\<close> places after \<open>d\<close>, a different day, from
  where the loop goes on.
\<close>

theorem autoBalance_zero_limit:
  "d \<in> set DAYS \<Longrightarrow> tasks s = [t] \<Longrightarrow> dailyLimit s = 0 \<Longrightarrow> day t = d \<Longrightarrow>
   status t = STATUS_NOT_COMPLETED \<Longrightarrow> 0 < duration t \<Longrightarrow>
   autoBalance s d = (s\<lparr>tasks := [t\<lparr>day := (getNextDay ^^ 7) d\<rparr>]\<rparr>,
                      [0, 0, 0, 0, 0, 0, 0], [WarnCannotBalance]) \<and>
   (getNextDay ^^ 7) d = d \<and>
   DAYS ! ((nat (getDayIndex d) + 0) mod 7) = d \<and>
   (\<forall>j<7.
      DAYS ! ((nat (getDayIndex d) + j + 1) mod 7) \<noteq> DAYS ! ((nat (getDayIndex d) + j) mod 7) \<and>
      getNextDay (DAYS ! ((nat (getDayIndex d) + j) mod 7)) =
        DAYS ! ((nat (getDayIndex d) + j + 1) mod 7) \<and>
      dailyLimit s <
        calculateDayTime (s\<lparr>tasks := [t\<lparr>day := DAYS ! ((nat (getDayIndex d) + j) mod 7)\<rparr>]\<rparr>)
          (DAYS ! ((nat (getDayIndex d) + j) mod 7)) \<and>
      select_task [t\<lparr>day := DAYS ! ((nat (getDayIndex d) + j) mod 7)\<rparr>]
          (DAYS ! ((nat (getDayIndex d) + j) mod 7))
          (calculateDayTime
             (s\<lparr>tasks := [t\<lparr>day := DAYS ! ((nat (getDayIndex d) + j) mod 7)\<rparr>]\<rparr>)
             (DAYS ! ((nat (getDayIndex d) + j) mod 7)) - dailyLimit s) = Some 0 \<and>
      move_task (s\<lparr>tasks := [t\<lparr>day := DAYS ! ((nat (getDayIndex d) + j) mod 7)\<rparr>]\<rparr>) 0
          (getNextDay (DAYS ! ((nat (getDayIndex d) + j) mod 7))) =
        s\<lparr>tasks := [t\<lparr>day := DAYS ! ((nat (getDayIndex d) + j + 1) mod 7)\<rparr>]\<rparr> \<and>
      autoBalance_loop (s\<lparr>tasks := [t\<lparr>day := DAYS ! ((nat (getDayIndex d) + j) mod 7)\<rparr>]\<rparr>)
          (DAYS ! ((nat (getDayIndex d) + j) mod 7)) j =
        (case autoBalance_loop
                (s\<lparr>tasks := [t\<lparr>day := DAYS ! ((nat (getDayIndex d) + j + 1) mod 7)\<rparr>]\<rparr>)
                (DAYS ! ((nat (getDayIndex d) + j + 1) mod 7)) (j + 1) of
           (s', n, moved, evs) \<Rightarrow> (s', n, 0 # moved, evs)))"
proof -
  assume a: "d \<in> set DAYS" "tasks s = [t]" "dailyLimit s = 0" "day t = d"
    "status t = STATUS_NOT_COMPLETED" "0 < duration t"
  define m where "m = nat (getDayIndex d)"
  have m: "m < 7" and dm: "DAYS ! m = d"
    unfolding m_def using day_position [OF a(1)] by simp_all
  have l: "autoBalance_loop s (toLowerCase d) 0 =
     (s\<lparr>tasks := [t\<lparr>day := (getNextDay ^^ (MAX_BALANCE_ATTEMPTS - 0)) d\<rparr>]\<rparr>,
      MAX_BALANCE_ATTEMPTS, replicate (MAX_BALANCE_ATTEMPTS - 0) 0, [])"
    unfolding toLowerCase_DAYS [OF a(1)]
    by (rule single_task_loop) (use a in simp_all)
  have r1: "autoBalance s d = (s\<lparr>tasks := [t\<lparr>day := (getNextDay ^^ 7) d\<rparr>]\<rparr>,
                            [0, 0, 0, 0, 0, 0, 0], [WarnCannotBalance])"
    unfolding autoBalance_def l by (simp add: MAX_BALANCE_ATTEMPTS_def eval_nat_numeral)
  have r2: "(getNextDay ^^ 7) d = d" by (rule getNextDay_week [OF a(1)])
  have r3: "DAYS ! ((m + 0) mod 7) = d" using m dm by simp
  have step: "DAYS ! ((m + j + 1) mod 7) \<noteq> DAYS ! ((m + j) mod 7) \<and>
      getNextDay (DAYS ! ((m + j) mod 7)) = DAYS ! ((m + j + 1) mod 7) \<and>
      dailyLimit s <
        calculateDayTime (s\<lparr>tasks := [t\<lparr>day := DAYS ! ((m + j) mod 7)\<rparr>]\<rparr>)
          (DAYS ! ((m + j) mod 7)) \<and>
      select_task [t\<lparr>day := DAYS ! ((m + j) mod 7)\<rparr>] (DAYS ! ((m + j) mod 7))
          (calculateDayTime (s\<lparr>tasks := [t\<lparr>day := DAYS ! ((m + j) mod 7)\<rparr>]\<rparr>)
             (DAYS ! ((m + j) mod 7)) - dailyLimit s) = Some 0 \<and>
      move_task (s\<lparr>tasks := [t\<lparr>day := DAYS ! ((m + j) mod 7)\<rparr>]\<rparr>) 0
          (getNextDay (DAYS ! ((m + j) mod 7))) =
        s\<lparr>tasks := [t\<lparr>day := DAYS ! ((m + j + 1) mod 7)\<rparr>]\<rparr> \<and>
      autoBalance_loop (s\<lparr>tasks := [t\<lparr>day := DAYS ! ((m + j) mod 7)\<rparr>]\<rparr>)
          (DAYS ! ((m + j) mod 7)) j =
        (case autoBalance_loop (s\<lparr>tasks := [t\<lparr>day := DAYS ! ((m + j + 1) mod 7)\<rparr>]\<rparr>)
                (DAYS ! ((m + j + 1) mod 7)) (j + 1) of
           (s', n, moved, evs) \<Rightarrow> (s', n, 0 # moved, evs))"
    if j: "j < 7" for j
  proof -
    define cur where "cur = DAYS ! ((m + j) mod 7)"
    define nxt where "nxt = DAYS ! ((m + j + 1) mod 7)"
    define sj where "sj = s\<lparr>tasks := [t\<lparr>day := cur\<rparr>]\<rparr>"
    have cur: "cur \<in> set DAYS" unfolding cur_def by (simp add: length_DAYS)
    have nx: "getNextDay cur = nxt"
      unfolding cur_def nxt_def using getNextDay_nth [of "(m + j) mod 7"]
      by (simp add: mod_Suc_eq)
    have ne: "nxt \<noteq> cur"
      unfolding cur_def nxt_def by (rule next_position_differs)
    note st = single_task_step [of cur "t\<lparr>day := cur\<rparr>" sj, OF cur]
    have c: "calculateDayTime sj cur = duration t"
      using st(1) a by (simp add: sj_def)
    have sel: "select_task (tasks sj) cur (calculateDayTime sj cur - dailyLimit sj) = Some 0"
      using st(2) a by (simp add: sj_def)
    have mv: "move_task sj 0 (getNextDay cur) = s\<lparr>tasks := [t\<lparr>day := nxt\<rparr>]\<rparr>"
      using st(3) a by (simp add: sj_def nx)
    have over: "\<not> calculateDayTime sj cur \<le> dailyLimit sj"
      using c a by (simp add: sj_def)
    have lt: "j < MAX_BALANCE_ATTEMPTS" using j by (simp add: MAX_BALANCE_ATTEMPTS_def)
    have lp: "autoBalance_loop sj cur j =
        (case autoBalance_loop (s\<lparr>tasks := [t\<lparr>day := nxt\<rparr>]\<rparr>) nxt (j + 1) of
           (s', n, moved, evs) \<Rightarrow> (s', n, 0 # moved, evs))"
      using loop_move_result [OF lt over sel, unfolded mv, unfolded nx]
      by (cases "autoBalance_loop (s\<lparr>tasks := [t\<lparr>day := nxt\<rparr>]\<rparr>) nxt (j + 1)") simp
    have dl: "dailyLimit sj = dailyLimit s" "tasks sj = [t\<lparr>day := cur\<rparr>]"
      by (simp_all add: sj_def)
    from ne nx c sel mv lp over show ?thesis
      unfolding dl unfolding sj_def cur_def nxt_def by simp
  qed
  from r1 r2 r3 step show ?thesis unfolding m_def by blast
qed

theorem autoBalance_zero_limit_witness:
  "autoBalance
     \<lparr>tasks = [\<lparr>task_id = ''task_5_1'', title = ''read'', duration = 30, day = ''tuesday'',
                status = ''not-completed'', addedDate = ''x''\<rparr>],
      dailyLimit = 0, counter = 2\<rparr> ''tuesday'' =
   (\<lparr>tasks = [\<lparr>task_id = ''task_5_1'', title = ''read'', duration = 30, day = ''tuesday'',
                status = ''not-completed'', addedDate = ''x''\<rparr>],
      dailyLimit = 0, counter = 2\<rparr>,
    [0, 0, 0, 0, 0, 0, 0], [WarnCannotBalance]) \<and>
   getNextDay ''tuesday'' = ''wednesday'' \<and>
   move_task
     \<lparr>tasks = [\<lparr>task_id = ''task_5_1'', title = ''read'', duration = 30, day = ''tuesday'',
                status = ''not-completed'', addedDate = ''x''\<rparr>],
      dailyLimit = 0, counter = 2\<rparr> 0 (getNextDay ''tuesday'') =
     \<lparr>tasks = [\<lparr>task_id = ''task_5_1'', title = ''read'', duration = 30, day = ''wednesday'',
                status = ''not-completed'', addedDate = ''x''\<rparr>],
      dailyLimit = 0, counter = 2\<rparr>"
proof -
  define t where "t = \<lparr>task_id = ''task_5_1'', title = ''read'', duration = 30, day = ''tuesday'',
                status = ''not-completed'', addedDate = ''x''\<rparr>"
  define s where "s = \<lparr>tasks = [t], dailyLimit = 0, counter = 2\<rparr>"
  have i: "nat (getDayIndex ''tuesday'') = 1" by code_simp
  have n: "DAYS ! ((1 + 0) mod 7) = ''tuesday''" "DAYS ! ((1 + 0 + 1) mod 7) = ''wednesday''"
    by (simp_all add: DAYS_def)
  have h: "''tuesday'' \<in> set DAYS" "tasks s = [t]" "dailyLimit s = 0" "day t = ''tuesday''"
    "status t = STATUS_NOT_COMPLETED" "0 < duration t"
    by (simp_all add: DAYS_def s_def t_def STATUS_NOT_COMPLETED_def)
  note z = autoBalance_zero_limit [OF h, unfolded i]
  from z have a: "autoBalance s ''tuesday'' =
      (s\<lparr>tasks := [t\<lparr>day := (getNextDay ^^ 7) ''tuesday''\<rparr>]\<rparr>,
       [0, 0, 0, 0, 0, 0, 0], [WarnCannotBalance])"
    and w: "(getNextDay ^^ 7) ''tuesday'' = ''tuesday''"
    and st: "\<forall>j<7. getNextDay (DAYS ! ((1 + j) mod 7)) = DAYS ! ((1 + j + 1) mod 7) \<and>
      move_task (s\<lparr>tasks := [t\<lparr>day := DAYS ! ((1 + j) mod 7)\<rparr>]\<rparr>) 0
          (getNextDay (DAYS ! ((1 + j) mod 7))) =
        s\<lparr>tasks := [t\<lparr>day := DAYS ! ((1 + j + 1) mod 7)\<rparr>]\<rparr>"
    by blast+
  have z0: "(0::nat) < 7" by simp
  from st [rule_format, OF z0]
  have s0: "getNextDay ''tuesday'' = ''wednesday''"
    and m0: "move_task (s\<lparr>tasks := [t\<lparr>day := ''tuesday''\<rparr>]\<rparr>) 0 (getNextDay ''tuesday'') =
        s\<lparr>tasks := [t\<lparr>day := ''wednesday''\<rparr>]\<rparr>"
    unfolding n by blast+
  have e1: "s\<lparr>tasks := [t\<lparr>day := ''tuesday''\<rparr>]\<rparr> = s" by (simp add: s_def t_def)
  from a w s0 m0 show ?thesis
    unfolding e1 unfolding w s_def t_def by simp
qed

section \<open>Where auto-balance can take a task\<close>

lemma loop_day:
  "autoBalance_loop s d a = (s', n, moved, evs) \<Longrightarrow> j < length (tasks s) \<Longrightarrow>
   day (tasks s' ! j) = day (tasks s ! j) \<or>
   (\<exists>k. 1 \<le> k \<and> k \<le> MAX_BALANCE_ATTEMPTS - a \<and> day (tasks s' ! j) = (getNextDay ^^ k) d)"
proof (induction s d a arbitrary: s' n moved evs rule: loop_induct)
  case (finished s d a)
  then show ?case by (simp add: loop_done)
next
  case (balanced s d a)
  then show ?case by (simp add: loop_balanced)
next
  case (stuck s d a)
  then show ?case by (simp add: loop_stuck)
next
  case (move s d a i)
  let ?s = "move_task s i (getNextDay d)"
  obtain s1 n1 m1 e1 where
    r: "autoBalance_loop ?s (getNextDay d) (a + 1) = (s1, n1, m1, e1)"
    by (metis prod_cases4)
  from move.prems(1) have eq: "s' = s1"
    by (simp add: loop_move_result [OF move.hyps r])
  have j: "j < length (tasks ?s)" using move.prems(2) by (simp add: move_task_frame)
  from move.IH [OF r j]
  consider (same) "day (tasks s1 ! j) = day (tasks ?s ! j)"
    | (later) k where "1 \<le> k" "k \<le> MAX_BALANCE_ATTEMPTS - (a + 1)"
        "day (tasks s1 ! j) = (getNextDay ^^ k) (getNextDay d)"
    by blast
  then show ?case
  proof cases
    case same
    show ?thesis
    proof (cases "j = i")
      case True
      then have "day (tasks ?s ! j) = (getNextDay ^^ 1) d"
        using move.prems(2) by (simp add: move_task_def)
      with same move.hyps(1) eq show ?thesis
        by (intro disjI2 exI [of _ 1]) simp
    next
      case False
      then have "tasks ?s ! j = tasks s ! j" by (simp add: move_task_def)
      with same eq show ?thesis by simp
    qed
  next
    case later
    have "(getNextDay ^^ k) (getNextDay d) = (getNextDay ^^ (Suc k)) d"
      by (simp add: funpow_swap1)
    with later move.hyps(1) eq show ?thesis
      by (intro disjI2 exI [of _ "Suc k"]) simp
  qed
qed

lemma autoBalance_day:
  assumes "autoBalance s d = (s', moved, evs)" and "j < length (tasks s)"
    and "day (tasks s ! j) = toLowerCase d"
  shows "\<exists>k\<le>7. day (tasks s' ! j) = (getNextDay ^^ k) (toLowerCase d)"
proof -
  obtain n e where r: "autoBalance_loop s (toLowerCase d) 0 = (s', n, moved, e)"
    using assms(1) unfolding autoBalance_def by (auto split: prod.splits)
  from loop_day [OF r assms(2)] show ?thesis
  proof
    assume "day (tasks s' ! j) = day (tasks s ! j)"
    with assms(3) show ?thesis by (intro exI [of _ 0]) simp
  next
    assume "\<exists>k. 1 \<le> k \<and> k \<le> MAX_BALANCE_ATTEMPTS - 0 \<and>
                day (tasks s' ! j) = (getNextDay ^^ k) (toLowerCase d)"
    then show ?thesis by (auto simp: MAX_BALANCE_ATTEMPTS_def)
  qed
qed

lemma getDayAhead_reschedule:
  "\<exists>x. getDayAhead d RESCHEDULE_DAYS_AHEAD = Some x \<and> x \<in> set DAYS"
proof -
  have "getDayIndex d \<in> {- 1, 0, 1, 2, 3, 4, 5, 6}"
    using getDayIndex_bounds [of d] by auto
  then show ?thesis
    unfolding getDayAhead_def Let_def length_DAYS RESCHEDULE_DAYS_AHEAD_def array_read_def
    by (auto simp: js_rem_def DAYS_def)
qed

lemma DAYS_CONFIG_name: "d \<in> set DAYS \<Longrightarrow> \<exists>name. map_of DAYS_CONFIG d = Some name"
  by (auto simp: DAYS_def DAYS_CONFIG_def)

lemma getDayIndex_lower: "getDayIndex (toLowerCase d) = getDayIndex d"
  by (simp add: getDayIndex_def toLowerCase_idem)

lemma autoBalance_lower: "autoBalance s (toLowerCase d) = autoBalance s d"
  by (simp add: autoBalance_def toLowerCase_idem)

section \<open>The operations of TaskManager\<close>

lemma autoBalance_length:
  "autoBalance s d = (s', moved, evs) \<Longrightarrow> length (tasks s') = length (tasks s)"
  using autoBalance_frame [of s d s' moved evs] by (auto dest: same_erased_length)

lemma rescheduleTask_Inr:
  "\<exists>target nt s2 s' moved evs name.
     getDayAhead (day t) 3 = Some target \<and> target \<in> set DAYS \<and>
     map_of DAYS_CONFIG target = Some name \<and>
     nt = \<lparr>task_id = fst (generate now s), title = ''RESCHEDULED: '' @ title t,
           duration = duration t, day = target,
           status = STATUS_NOT_COMPLETED, addedDate = stamp\<rparr> \<and>
     s2 = s\<lparr>counter := counter s + 1, tasks := tasks s @ [nt]\<rparr> \<and>
     autoBalance s2 target = (s', moved, evs) \<and>
     rescheduleTask s t now stamp = (Inr (), s', evs @ [SuccessRescheduled name])"
proof -
  from getDayAhead_reschedule [of "day t"] obtain target where
    g: "getDayAhead (day t) 3 = Some target" and tg: "target \<in> set DAYS"
    by (auto simp: RESCHEDULE_DAYS_AHEAD_def)
  obtain name where n: "map_of DAYS_CONFIG target = Some name"
    using DAYS_CONFIG_name [OF tg] by blast
  define nt where "nt = \<lparr>task_id = fst (generate now s), title = ''RESCHEDULED: '' @ title t,
           duration = duration t, day = target,
           status = STATUS_NOT_COMPLETED, addedDate = stamp\<rparr>"
  define s2 where "s2 = s\<lparr>counter := counter s + 1, tasks := tasks s @ [nt]\<rparr>"
  obtain s' moved evs where ab: "autoBalance s2 target = (s', moved, evs)"
    by (metis prod_cases3)
  have "rescheduleTask s t now stamp = (Inr (), s', evs @ [SuccessRescheduled name])"
    using ab n g unfolding s2_def nt_def
    by (simp add: rescheduleTask_def generate_def Let_def RESCHEDULE_DAYS_AHEAD_def)
  with ab g tg n show ?thesis unfolding s2_def nt_def by blast
qed

lemma rescheduleTask_result:
  "\<exists>s' evs name. rescheduleTask s t now stamp = (Inr (), s', evs @ [SuccessRescheduled name]) \<and>
     length (tasks s') = length (tasks s) + 1 \<and> counter s' = counter s + 1 \<and>
     dailyLimit s' = dailyLimit s"
proof -
  from rescheduleTask_Inr [of t now s stamp]
  obtain target nt s2 s' moved evs name where
    s2: "s2 = s\<lparr>counter := counter s + 1, tasks := tasks s @ [nt]\<rparr>"
    and ab: "autoBalance s2 target = (s', moved, evs)"
    and r: "rescheduleTask s t now stamp = (Inr (), s', evs @ [SuccessRescheduled name])"
    by blast
  from autoBalance_frame [OF ab] autoBalance_length [OF ab] have
    "length (tasks s') = length (tasks s) + 1" "counter s' = counter s + 1"
    "dailyLimit s' = dailyLimit s"
    by (simp_all add: s2)
  with r show ?thesis by blast
qed

lemma updateStatus_legal:
  assumes "0 \<le> findIndex (\<lambda>t. task_id t = taskId) (tasks s)"
    and "\<not> (status (tasks s ! nat (findIndex (\<lambda>t. task_id t = taskId) (tasks s))) =
             STATUS_COMPLETED \<and> newStatus = STATUS_MISSED)"
  shows "\<exists>s' evs. updateStatus s taskId newStatus now stamp = (Inr True, s', evs)"
proof (cases "newStatus = STATUS_MISSED")
  case False
  with assms show ?thesis by (simp add: updateStatus_def Let_def)
next
  case True
  let ?i = "nat (findIndex (\<lambda>t. task_id t = taskId) (tasks s))"
  let ?s1 = "s\<lparr>tasks := (tasks s)[?i := (tasks s ! ?i)\<lparr>status := newStatus\<rparr>]\<rparr>"
  from rescheduleTask_result [of ?s1 "tasks ?s1 ! ?i" now stamp]
  obtain s' evs where "rescheduleTask ?s1 (tasks ?s1 ! ?i) now stamp = (Inr (), s', evs)"
    by blast
  with assms True show ?thesis by (simp add: updateStatus_def Let_def)
qed




section \<open>Errors and the store\<close>

lemma validateTaskTitle_errors:
  "validateTaskTitle ttl = Inl e \<Longrightarrow> e \<in> {EmptyTitle, TitleTooLong, MarkupNotAllowed}"
  by (auto simp: validateTaskTitle_def split: if_splits)

lemma validateDuration_errors:
  "validateDuration dur = Inl e \<Longrightarrow> e \<in> {NotANumber, NonPositiveDuration, DurationTooLarge}"
  by (auto simp: validateDuration_def split: option.splits if_splits)

lemma addTask_valid:
  "validateTaskTitle ttl = Inr tv \<Longrightarrow> validateDuration dur = Inr dv \<Longrightarrow>
   \<exists>t s' evs. addTask s ttl dur d st now stamp = (Inr t, s', evs)"
  by (simp add: addTask_def Let_def split: prod.splits)

lemma addTask_error:
  "fst (addTask s ttl dur d st now stamp) = Inl e \<Longrightarrow>
   addTask s ttl dur d st now stamp = (Inl e, s, []) \<and>
   (validateTaskTitle ttl = Inl e \<or>
    (\<exists>v. validateTaskTitle ttl = Inr v) \<and> validateDuration dur = Inl e)"
proof (cases "validateTaskTitle ttl")
  case (Inl a)
  assume "fst (addTask s ttl dur d st now stamp) = Inl e"
  with Inl show ?thesis by (simp add: addTask_def)
next
  case tv: (Inr v)
  assume a: "fst (addTask s ttl dur d st now stamp) = Inl e"
  show ?thesis
  proof (cases "validateDuration dur")
    case (Inl b)
    with tv a show ?thesis by (simp add: addTask_def)
  next
    case (Inr dv)
    from addTask_valid [OF tv Inr, of s d st now stamp] a show ?thesis by auto
  qed
qed

lemma updateStatus_error:
  assumes "fst (updateStatus s taskId newStatus now stamp) = Inl e"
    and "e = TaskNotFound \<or> e = IllegalTransition"
  shows "updateStatus s taskId newStatus now stamp = (Inl e, s, [])"
proof (cases "findIndex (\<lambda>t. task_id t = taskId) (tasks s) < 0")
  case True
  with assms show ?thesis by (simp add: updateStatus_def)
next
  case found: False
  let ?i = "nat (findIndex (\<lambda>t. task_id t = taskId) (tasks s))"
  show ?thesis
  proof (cases "status (tasks s ! ?i) = STATUS_COMPLETED \<and> newStatus = STATUS_MISSED")
    case True
    with found assms show ?thesis by (simp add: updateStatus_def Let_def)
  next
    case False
    from found have f: "0 \<le> findIndex (\<lambda>t. task_id t = taskId) (tasks s)" by simp
    from updateStatus_legal [OF f False]
    have "\<exists>s' evs. updateStatus s taskId newStatus now stamp = (Inr True, s', evs)" .
    with assms(1) show ?thesis by auto
  qed
qed

text \<open>
  Claim C6. When \<^verbatim>\<open>addTask\<close> throws, the error is one of the six validation errors, and
  when \<^verbatim>\<open>updateStatus\<close> throws TaskNotFound or IllegalTransition, the store left behind is
  the store found: task list, limit and identifier counter are unchanged, and nothing was
  shown to the user.
\<close>

theorem errors_leave_store_unchanged:
  "(fst (addTask s ttl dur d st now stamp) = Inl e \<longrightarrow>
      snd (addTask s ttl dur d st now stamp) = (s, []) \<and>
      e \<in> {EmptyTitle, TitleTooLong, MarkupNotAllowed,
           NotANumber, NonPositiveDuration, DurationTooLarge}) \<and>
   (fst (updateStatus s taskId newStatus now stamp) = Inl TaskNotFound \<or>
    fst (updateStatus s taskId newStatus now stamp) = Inl IllegalTransition \<longrightarrow>
      snd (updateStatus s taskId newStatus now stamp) = (s, []))"
proof (intro conjI impI)
  assume a: "fst (addTask s ttl dur d st now stamp) = Inl e"
  from addTask_error [OF a] show "snd (addTask s ttl dur d st now stamp) = (s, [])" by simp
  from addTask_error [OF a] validateTaskTitle_errors [of ttl e] validateDuration_errors [of dur e]
  show "e \<in> {EmptyTitle, TitleTooLong, MarkupNotAllowed,
           NotANumber, NonPositiveDuration, DurationTooLarge}" by auto
next
  assume "fst (updateStatus s taskId newStatus now stamp) = Inl TaskNotFound \<or>
    fst (updateStatus s taskId newStatus now stamp) = Inl IllegalTransition"
  then show "snd (updateStatus s taskId newStatus now stamp) = (s, [])"
    using updateStatus_error [of s taskId newStatus now stamp] by auto
qed

theorem errors_leave_store_unchanged_witness:
  "addTask completed_task_store ''   '' ''30'' ''monday'' ''not-completed'' 7 ''z'' =
     (Inl EmptyTitle, completed_task_store, []) \<and>
   addTask completed_task_store ''read'' ''1441'' ''monday'' ''not-completed'' 7 ''z'' =
     (Inl DurationTooLarge, completed_task_store, []) \<and>
   updateStatus completed_task_store ''task_9_9'' ''missed'' 7 ''z'' =
     (Inl TaskNotFound, completed_task_store, []) \<and>
   updateStatus completed_task_store ''task_5_1'' ''missed'' 7 ''z'' =
     (Inl IllegalTransition, completed_task_store, [])"
proof -
  have a: "fst (addTask completed_task_store ''   '' ''30'' ''monday'' ''not-completed'' 7 ''z'') =
      Inl EmptyTitle" by code_simp
  have b: "fst (addTask completed_task_store ''read'' ''1441'' ''monday'' ''not-completed'' 7 ''z'') =
      Inl DurationTooLarge" by code_simp
  have c: "fst (updateStatus completed_task_store ''task_9_9'' ''missed'' 7 ''z'') =
      Inl TaskNotFound" by code_simp
  have d: "fst (updateStatus completed_task_store ''task_5_1'' ''missed'' 7 ''z'') =
      Inl IllegalTransition" by code_simp
  from a errors_leave_store_unchanged
      [where s = completed_task_store and ttl = "''   ''" and dur = "''30''"
         and d = "''monday''" and st = "''not-completed''" and now = 7 and stamp = "''z''"
         and e = EmptyTitle]
  have a': "addTask completed_task_store ''   '' ''30'' ''monday'' ''not-completed'' 7 ''z'' =
     (Inl EmptyTitle, completed_task_store, [])"
    by (simp add: prod_eq_iff)
  from b errors_leave_store_unchanged
      [where s = completed_task_store and ttl = "''read''" and dur = "''1441''"
         and d = "''monday''" and st = "''not-completed''" and now = 7 and stamp = "''z''"
         and e = DurationTooLarge]
  have b': "addTask completed_task_store ''read'' ''1441'' ''monday'' ''not-completed'' 7 ''z'' =
     (Inl DurationTooLarge, completed_task_store, [])"
    by (simp add: prod_eq_iff)
  from c errors_leave_store_unchanged
      [where s = completed_task_store and taskId = "''task_9_9''" and newStatus = "''missed''"
         and now = 7 and stamp = "''z''"]
  have c': "updateStatus completed_task_store ''task_9_9'' ''missed'' 7 ''z'' =
     (Inl TaskNotFound, completed_task_store, [])"
    by (simp add: prod_eq_iff)
  from d errors_leave_store_unchanged
      [where s = completed_task_store and taskId = "''task_5_1''" and newStatus = "''missed''"
         and now = 7 and stamp = "''z''"]
  have d': "updateStatus completed_task_store ''task_5_1'' ''missed'' 7 ''z'' =
     (Inl IllegalTransition, completed_task_store, [])"
    by (simp add: prod_eq_iff)
  from a' b' c' d' show ?thesis by simp
qed

section \<open>The case of the day argument\<close>

lemma addTask_Inr:
  assumes "addTask s ttl dur d st now stamp = (Inr t, s', evs)"
  shows "\<exists>tv dv nt s2 moved.
     validateTaskTitle ttl = Inr tv \<and> validateDuration dur = Inr dv \<and>
     nt = \<lparr>task_id = fst (generate now s), title = tv, duration = dv,
           day = toLowerCase d, status = st, addedDate = stamp\<rparr> \<and>
     s2 = s\<lparr>counter := counter s + 1, tasks := tasks s @ [nt]\<rparr> \<and>
     autoBalance s2 d = (s', moved, evs) \<and> t = tasks s' ! length (tasks s)"
  using assms
  by (auto simp: addTask_def generate_def Let_def split: sum.splits prod.splits)

lemma addTask_result_day:
  assumes "addTask s ttl dur d st now stamp = (Inr t, s', evs)"
  shows "\<exists>k\<le>7. day t = (getNextDay ^^ k) (toLowerCase d)"
proof -
  from addTask_Inr [OF assms] obtain tv dv nt s2 moved where
    nt0: "nt = \<lparr>task_id = fst (generate now s), title = tv, duration = dv,
           day = toLowerCase d, status = st, addedDate = stamp\<rparr>"
    and s20: "s2 = s\<lparr>counter := counter s + 1, tasks := tasks s @ [nt]\<rparr>"
    and ab: "autoBalance s2 d = (s', moved, evs)" and t: "t = tasks s' ! length (tasks s)"
    by blast
  have nt: "day nt = toLowerCase d" by (simp add: nt0)
  have s2: "tasks s2 = tasks s @ [nt]" by (simp add: s20)
  have j: "length (tasks s) < length (tasks s2)" by (simp add: s2)
  have dj: "day (tasks s2 ! length (tasks s)) = toLowerCase d"
    by (simp add: s2 nt)
  from autoBalance_day [OF ab j dj] t show ?thesis by simp
qed

text \<open>
  Claim C10. Every day-keyed operation lowercases its day argument: \<^verbatim>\<open>addTask\<close>,
  \<^verbatim>\<open>calculateDayTime\<close>, \<^verbatim>\<open>getTasksByDay\<close> and \<^verbatim>\<open>autoBalance\<close> (and the three calendar
  helpers) give the same result for a day token and for its lowercase form. The task
  \<^verbatim>\<open>addTask\<close> creates is stored on the lowercased day, from where the balancing that follows
  may carry it forward, at most 7 days.
\<close>

theorem day_argument_case_insensitive:
  "addTask s ttl dur d st now stamp = addTask s ttl dur (toLowerCase d) st now stamp \<and>
   calculateDayTime s d = calculateDayTime s (toLowerCase d) \<and>
   getTasksByDay s d = getTasksByDay s (toLowerCase d) \<and>
   autoBalance s d = autoBalance s (toLowerCase d) \<and>
   getDayIndex d = getDayIndex (toLowerCase d) \<and>
   getNextDay d = getNextDay (toLowerCase d) \<and>
   getDayAhead d n = getDayAhead (toLowerCase d) n \<and>
   (\<forall>t s' evs. addTask s ttl dur d st now stamp = (Inr t, s', evs) \<longrightarrow>
      (\<exists>k\<le>7. day t = (getNextDay ^^ k) (toLowerCase d)))"
proof -
  have "addTask s ttl dur d st now stamp = addTask s ttl dur (toLowerCase d) st now stamp"
    unfolding addTask_def toLowerCase_idem autoBalance_lower ..
  moreover have "calculateDayTime s d = calculateDayTime s (toLowerCase d)"
    by (simp add: calculateDayTime_def toLowerCase_idem)
  moreover have "getTasksByDay s d = getTasksByDay s (toLowerCase d)"
    by (simp add: getTasksByDay_def toLowerCase_idem)
  moreover have "autoBalance s d = autoBalance s (toLowerCase d)"
    by (simp add: autoBalance_lower)
  moreover have "getDayIndex d = getDayIndex (toLowerCase d)"
    by (simp add: getDayIndex_lower)
  moreover have "getNextDay d = getNextDay (toLowerCase d)"
    by (simp add: getNextDay_def getDayIndex_lower)
  moreover have "getDayAhead d n = getDayAhead (toLowerCase d) n"
    by (simp add: getDayAhead_def getDayIndex_lower)
  moreover have "\<forall>t s' evs. addTask s ttl dur d st now stamp = (Inr t, s', evs) \<longrightarrow>
      (\<exists>k\<le>7. day t = (getNextDay ^^ k) (toLowerCase d))"
    using addTask_result_day by blast
  ultimately show ?thesis by blast
qed

theorem day_argument_case_insensitive_witness:
  "addTask empty_store ''read'' ''30'' ''MonDay'' ''not-completed'' 5 ''x'' =
     (Inr \<lparr>task_id = ''task_5_1'', title = ''read'', duration = 30, day = ''monday'',
            status = ''not-completed'', addedDate = ''x''\<rparr>,
      \<lparr>tasks = [\<lparr>task_id = ''task_5_1'', title = ''read'', duration = 30, day = ''monday'',
                 status = ''not-completed'', addedDate = ''x''\<rparr>],
       dailyLimit = 150, counter = 2\<rparr>, []) \<and>
   addTask empty_store ''read'' ''30'' ''MonDay'' ''not-completed'' 5 ''x'' =
   addTask empty_store ''read'' ''30'' ''monday'' ''not-completed'' 5 ''x'' \<and>
   (\<exists>k\<le>7. ''monday'' = (getNextDay ^^ k) ''monday'')"
proof -
  have a: "addTask empty_store ''read'' ''30'' ''MonDay'' ''not-completed'' 5 ''x'' =
     (Inr \<lparr>task_id = ''task_5_1'', title = ''read'', duration = 30, day = ''monday'',
            status = ''not-completed'', addedDate = ''x''\<rparr>,
      \<lparr>tasks = [\<lparr>task_id = ''task_5_1'', title = ''read'', duration = 30, day = ''monday'',
                 status = ''not-completed'', addedDate = ''x''\<rparr>],
       dailyLimit = 150, counter = 2\<rparr>, [])"
    by code_simp
  have l: "toLowerCase ''MonDay'' = ''monday''" by code_simp
  from day_argument_case_insensitive
         [where s = empty_store and ttl = "''read''" and dur = "''30''" and d = "''MonDay''"
            and st = "''not-completed''" and now = 5 and stamp = "''x''"]
  have "addTask empty_store ''read'' ''30'' ''MonDay'' ''not-completed'' 5 ''x'' =
        addTask empty_store ''read'' ''30'' (toLowerCase ''MonDay'') ''not-completed'' 5 ''x''"
    and "\<forall>t s' evs. addTask empty_store ''read'' ''30'' ''MonDay'' ''not-completed'' 5 ''x'' =
           (Inr t, s', evs) \<longrightarrow> (\<exists>k\<le>7. day t = (getNextDay ^^ k) (toLowerCase ''MonDay''))"
    by blast+
  with a l show ?thesis by simp
qed

section \<open>Auto-balance: the task an iteration moves\<close>

lemma duration_key: "(\<lambda>(i, t). - duration t) = (\<lambda>p. - duration (snd p))"
  by (auto simp: fun_eq_iff)

lemma sorted_order_insort:
  "sorted_wrt sorted_order ys \<Longrightarrow> \<forall>y\<in>set ys. fst x < fst y \<Longrightarrow>
   sorted_wrt sorted_order (insort_key (\<lambda>p. - duration (snd p)) x ys)"
proof (induction ys)
  case Nil
  then show ?case by simp
next
  case (Cons y ys)
  show ?case
  proof (cases "duration (snd y) \<le> duration (snd x)")
    case True
    have "sorted_order x z" if "z \<in> set (y # ys)" for z
    proof -
      have "duration (snd z) \<le> duration (snd y)"
        using that Cons.prems(1) by (auto simp: sorted_order_def)
      moreover have "fst x < fst z" using that Cons.prems(2) by auto
      ultimately show ?thesis using True by (auto simp: sorted_order_def)
    qed
    with True Cons.prems(1) show ?thesis
      by simp
  next
    case False
    then have yx: "sorted_order y x" by (simp add: sorted_order_def)
    have "sorted_wrt sorted_order (insort_key (\<lambda>p. - duration (snd p)) x ys)"
      using Cons by simp
    with False yx Cons.prems(1) show ?thesis
      by (auto simp: set_insort_key)
  qed
qed

lemma sorted_order_sort_key:
  "sorted_wrt (\<lambda>x y. fst x < fst y) xs \<Longrightarrow>
   sorted_wrt sorted_order (sort_key (\<lambda>(i, t). - duration t) xs)"
  unfolding duration_key
proof (induction xs)
  case Nil
  then show ?case by simp
next
  case (Cons x xs)
  then have "sorted_wrt sorted_order (sort_key (\<lambda>p. - duration (snd p)) xs)"
    and "\<forall>y\<in>set (sort_key (\<lambda>p. - duration (snd p)) xs). fst x < fst y"
    by auto
  then show ?case
    by (simp add: sorted_order_insort)
qed

lemma enumerate_ascending: "sorted_wrt (\<lambda>x y. fst x < fst y) (enumerate n xs)"
proof -
  have "sorted_wrt (<) (map fst (enumerate n xs))"
    by simp
  then show ?thesis unfolding sorted_wrt_map .
qed

lemma find_first_in_order:
  "sorted_wrt r xs \<Longrightarrow> find q xs = Some x \<Longrightarrow>
   x \<in> set xs \<and> q x \<and> (\<forall>y\<in>set xs. q y \<longrightarrow> y = x \<or> r x y)"
  by (induction xs) (auto split: if_splits)

lemma select_task_Some:
  assumes "select_task ts d excess = Some i"
  shows "i < length ts \<and> day (ts ! i) = d \<and> status (ts ! i) = STATUS_NOT_COMPLETED \<and>
         duration (ts ! i) \<le> excess \<and>
         (\<forall>k<length ts. day (ts ! k) = d \<and> status (ts ! k) = STATUS_NOT_COMPLETED \<longrightarrow>
            duration (ts ! i) \<le> duration (ts ! k) \<and>
            (duration (ts ! k) = duration (ts ! i) \<longrightarrow> k \<le> i))"
proof -
  let ?keep = "\<lambda>(i, t). day t = d \<and> status t \<noteq> STATUS_MISSED"
  let ?fits = "\<lambda>(i, t). status t = STATUS_NOT_COMPLETED \<and> duration t \<le> excess"
  let ?dayTasks = "filter ?keep (enumerate 0 ts)"
  let ?sorted = "sort_key (\<lambda>(i, t). - duration t) ?dayTasks"
  from assms obtain x where f: "find ?fits (rev ?sorted) = Some x" and i: "i = fst x"
    by (auto simp: select_task_def Let_def)
  have "sorted_wrt (\<lambda>x y. fst x < fst y) ?dayTasks"
    by (intro sorted_wrt_filter enumerate_ascending)
  then have "sorted_wrt sorted_order ?sorted" by (rule sorted_order_sort_key)
  then have "sorted_wrt (\<lambda>x y. sorted_order y x) (rev ?sorted)"
    by (simp add: sorted_wrt_rev)
  from find_first_in_order [OF this f]
  have x: "x \<in> set ?dayTasks" and qx: "?fits x"
    and least: "\<forall>y\<in>set ?dayTasks. ?fits y \<longrightarrow> y = x \<or> sorted_order y x"
    by auto
  from x have xi: "fst x < length ts" "ts ! fst x = snd x" "day (snd x) = d"
    by (auto simp: in_set_enumerate_eq)
  have main: "duration (ts ! i) \<le> duration (ts ! k) \<and>
              (duration (ts ! k) = duration (ts ! i) \<longrightarrow> k \<le> i)"
    if k: "k < length ts" "day (ts ! k) = d" "status (ts ! k) = STATUS_NOT_COMPLETED" for k
  proof (cases "duration (ts ! k) \<le> excess")
    case True
    have "(k, ts ! k) \<in> set ?dayTasks"
      using k by (auto simp: in_set_enumerate_eq STATUS_distinct)
    moreover have "?fits (k, ts ! k)" using k True by simp
    ultimately have "(k, ts ! k) = x \<or> sorted_order (k, ts ! k) x"
      using least by blast
    then show ?thesis using xi i by (auto simp: sorted_order_def)
  next
    case False
    with qx xi i show ?thesis by (auto simp: case_prod_beta)
  qed
  from qx xi i main show ?thesis by (auto simp: case_prod_beta)
qed

lemma select_task_None:
  assumes "select_task ts d excess = None"
    and "k < length ts" and "day (ts ! k) = d" and "status (ts ! k) = STATUS_NOT_COMPLETED"
  shows "excess < duration (ts ! k)"
proof -
  have "(k, ts ! k) \<in> set (filter (\<lambda>(i, t). day t = d \<and> status t \<noteq> STATUS_MISSED)
                              (enumerate 0 ts))"
    using assms(2-4) by (auto simp: in_set_enumerate_eq STATUS_distinct)
  then have "(k, ts ! k) \<in> set (rev (sort_key (\<lambda>(i, t). - duration t)
                 (filter (\<lambda>(i, t). day t = d \<and> status t \<noteq> STATUS_MISSED)
                    (enumerate 0 ts))))"
    by simp
  moreover from assms(1) have "\<forall>x\<in>set (rev (sort_key (\<lambda>(i, t). - duration t)
                 (filter (\<lambda>(i, t). day t = d \<and> status t \<noteq> STATUS_MISSED)
                    (enumerate 0 ts)))).
      \<not> (case x of (i, t) \<Rightarrow> status t = STATUS_NOT_COMPLETED \<and> duration t \<le> excess)"
    unfolding select_task_def Let_def by (auto simp: find_None_iff STATUS_distinct)
  ultimately have "\<not> (status (ts ! k) = STATUS_NOT_COMPLETED \<and> duration (ts ! k) \<le> excess)"
    by blast
  with assms(4) show ?thesis by simp
qed

text \<open>
  Claim C1, as amended. In an iteration of the loop where the current day is over the limit
  and some not-completed task on that day has a duration of at most the excess, exactly one
  task is reassigned to the next day, and it is the smallest not-completed task on that
  day (whose duration is then at most the excess); among the not-completed tasks of that
  smallest duration it is the one latest in the store.
\<close>

theorem autoBalance_moves_smallest:
  assumes "a < MAX_BALANCE_ATTEMPTS"
    and "dailyLimit s < calculateDayTime s d"
    and "excess = calculateDayTime s d - dailyLimit s"
    and "j < length (tasks s)" and "day (tasks s ! j) = d"
    and "status (tasks s ! j) = STATUS_NOT_COMPLETED" and "duration (tasks s ! j) \<le> excess"
  shows "\<exists>i s' n moved evs.
           autoBalance_loop (move_task s i (getNextDay d)) (getNextDay d) (a + 1) =
             (s', n, moved, evs) \<and>
           autoBalance_loop s d a = (s', n, i # moved, evs) \<and>
           i < length (tasks s) \<and> day (tasks s ! i) = d \<and>
           status (tasks s ! i) = STATUS_NOT_COMPLETED \<and> duration (tasks s ! i) \<le> excess \<and>
           (\<forall>k<length (tasks s).
              day (tasks s ! k) = d \<and> status (tasks s ! k) = STATUS_NOT_COMPLETED \<longrightarrow>
              duration (tasks s ! i) \<le> duration (tasks s ! k) \<and>
              (duration (tasks s ! k) = duration (tasks s ! i) \<longrightarrow> k \<le> i))"
proof -
  have over: "\<not> calculateDayTime s d \<le> dailyLimit s" using assms(2) by simp
  obtain i where sel: "select_task (tasks s) d excess = Some i"
    using select_task_None [of "tasks s" d excess j] assms(4-7)
    by (cases "select_task (tasks s) d excess") auto
  obtain s' n moved evs where
    r: "autoBalance_loop (move_task s i (getNextDay d)) (getNextDay d) (a + 1) =
          (s', n, moved, evs)"
    by (metis prod_cases4)
  have "autoBalance_loop s d a = (s', n, i # moved, evs)"
    using loop_move_result [OF assms(1) over _ r] sel assms(3) by simp
  with r select_task_Some [OF sel] show ?thesis by blast
qed

theorem autoBalance_moves_smallest_witness:
  "\<exists>i s' n moved evs.
     autoBalance_loop three_task_store ''monday'' 0 = (s', n, i # moved, evs) \<and>
     i < length (tasks three_task_store) \<and>
     duration (tasks three_task_store ! i) \<le> 1000 \<and>
     (\<forall>k<length (tasks three_task_store).
        day (tasks three_task_store ! k) = ''monday'' \<and>
        status (tasks three_task_store ! k) = STATUS_NOT_COMPLETED \<longrightarrow>
        duration (tasks three_task_store ! i) \<le> duration (tasks three_task_store ! k))"
proof -
  have h1: "0 < MAX_BALANCE_ATTEMPTS" by (simp add: MAX_BALANCE_ATTEMPTS_def)
  have h2: "dailyLimit three_task_store < calculateDayTime three_task_store ''monday''"
    by code_simp
  have h3: "(1000::int) = calculateDayTime three_task_store ''monday'' - dailyLimit three_task_store"
    by code_simp
  have h4: "2 < length (tasks three_task_store)" by (simp add: three_task_store_def)
  have h5: "day (tasks three_task_store ! 2) = ''monday''" by (simp add: three_task_store_def)
  have h6: "status (tasks three_task_store ! 2) = STATUS_NOT_COMPLETED"
    by (simp add: three_task_store_def STATUS_NOT_COMPLETED_def)
  have h7: "duration (tasks three_task_store ! 2) \<le> 1000" by (simp add: three_task_store_def)
  from autoBalance_moves_smallest [OF h1 h2 h3 h4 h5 h6 h7] show ?thesis by blast
qed

text \<open>
  Claim C1 as stated has the largest fitting task moved. On a Monday that holds tasks of
  100, 50 and 1000 minutes under a limit of 150 the excess is 1000, the task of 1000 minutes
  is not completed and fits it, and the task the iteration moves is the one of 50 minutes.
\<close>

theorem autoBalance_largest_fitting_counterexample:
  "calculateDayTime three_task_store ''monday'' - dailyLimit three_task_store = 1000 \<and>
   day (tasks three_task_store ! 2) = ''monday'' \<and>
   status (tasks three_task_store ! 2) = STATUS_NOT_COMPLETED \<and>
   duration (tasks three_task_store ! 2) = 1000 \<and>
   select_task (tasks three_task_store) ''monday'' 1000 = Some 1 \<and>
   duration (tasks three_task_store ! 1) = 50 \<and>
   autoBalance three_task_store ''monday'' =
     (move_task three_task_store 1 ''tuesday'', [1], [])"
  by code_simp

section \<open>Validating twice\<close>

lemma last_dropWhile: "dropWhile P xs \<noteq> [] \<Longrightarrow> last (dropWhile P xs) = last xs"
  by (metis last_appendR takeWhile_dropWhile_id)

lemma trim_ends:
  "trim s \<noteq> [] \<Longrightarrow> \<not> isWhiteSpace (hd (trim s)) \<and> \<not> isWhiteSpace (last (trim s))"
proof -
  let ?u = "dropWhile isWhiteSpace s"
  let ?w = "dropWhile isWhiteSpace (rev ?u)"
  assume "trim s \<noteq> []"
  then have w: "?w \<noteq> []" by (simp add: trim_def)
  then have "rev ?u \<noteq> []" by (metis dropWhile.simps(1))
  then have u: "?u \<noteq> []" by simp
  have "hd (trim s) = last ?w" using w by (simp add: trim_def hd_rev)
  also have "\<dots> = last (rev ?u)" using w by (rule last_dropWhile)
  also have "\<dots> = hd ?u" using u by (simp add: last_rev)
  finally have "hd (trim s) = hd ?u" .
  moreover have "\<not> isWhiteSpace (hd ?u)" using u by (rule hd_dropWhile)
  moreover have "last (trim s) = hd ?w" using w by (simp add: trim_def last_rev)
  moreover have "\<not> isWhiteSpace (hd ?w)" using w by (rule hd_dropWhile)
  ultimately show ?thesis by simp
qed

lemma trim_Nil: "trim [] = []"
  by (simp add: trim_def)

lemma trim_idem: "trim (trim s) = trim s"
proof (cases "trim s = []")
  case True
  then show ?thesis by (simp add: trim_Nil)
next
  case False
  from trim_ends [OF False] have h: "\<not> isWhiteSpace (hd (trim s))"
    and l: "\<not> isWhiteSpace (last (trim s))" by auto
  have a: "dropWhile isWhiteSpace (trim s) = trim s"
    using h by (simp add: dropWhile_eq_self_iff)
  have "hd (rev (trim s)) = last (trim s)" using False by (simp add: hd_rev)
  with l have b: "dropWhile isWhiteSpace (rev (trim s)) = rev (trim s)"
    by (simp add: dropWhile_eq_self_iff)
  show ?thesis
    by (subst trim_def) (simp add: a b)
qed

lemma length_trim: "length (trim s) \<le> length s"
proof -
  have "length (trim s) \<le> length (dropWhile isWhiteSpace s)"
    unfolding trim_def using length_dropWhile_le [of isWhiteSpace "rev (dropWhile isWhiteSpace s)"]
    by simp
  also have "\<dots> \<le> length s" by (rule length_dropWhile_le)
  finally show ?thesis .
qed

lemma escape_char_plain:
  "CHR ''&'' \<notin> set (escape_char c) \<Longrightarrow>
   escape_char c = [c] \<and> c \<noteq> CHR ''&'' \<and> c \<noteq> CHR ''<'' \<and> c \<noteq> CHR ''>'' \<and> c \<noteq> CHR 0xA0"
  by (auto simp: escape_char_def split: if_splits)

lemma escapeHtml_simps:
  "escapeHtml [] = []" "escapeHtml (c # t) = escape_char c @ escapeHtml t"
  by (simp_all add: escapeHtml_def)

lemma escapeHtml_plain:
  "CHR ''&'' \<notin> set (escapeHtml t) \<Longrightarrow> escapeHtml t = t \<and> CHR ''<'' \<notin> set t"
proof (induction t)
  case Nil
  then show ?case by (simp add: escapeHtml_simps)
next
  case (Cons c t)
  then have c: "CHR ''&'' \<notin> set (escape_char c)" and t: "CHR ''&'' \<notin> set (escapeHtml t)"
    by (simp_all add: escapeHtml_simps)
  from escape_char_plain [OF c] have "escape_char c = [c]" "c \<noteq> CHR ''<''" by simp_all
  moreover from Cons.IH [OF t] have "escapeHtml t = t" "CHR ''<'' \<notin> set t" by simp_all
  ultimately show ?case by (simp add: escapeHtml_simps)
qed

lemma htmlRegex_test_no_open: "CHR ''<'' \<notin> set s \<Longrightarrow> \<not> htmlRegex_test s"
proof -
  assume "CHR ''<'' \<notin> set s"
  then have d: "dropWhile (\<lambda>c. c \<noteq> CHR ''<'') s = []" by auto
  show ?thesis unfolding htmlRegex_test_def d by simp
qed

lemma validateTaskTitle_again:
  assumes "validateTaskTitle raw = Inr v" and "CHR ''&'' \<notin> set v"
  shows "v = trim raw \<and> validateTaskTitle v = Inr v"
proof -
  from assms(1) have ne: "trim raw \<noteq> []" and len: "length raw \<le> MAX_TITLE_LENGTH"
    and v: "v = escapeHtml (trim raw)"
    by (auto simp: validateTaskTitle_def split: if_splits)
  from escapeHtml_plain [of "trim raw"] assms(2) v
  have eq: "v = trim raw" and esc: "escapeHtml v = v" and lt: "CHR ''<'' \<notin> set v" by auto
  have "trim v = v" using eq trim_idem by simp
  moreover have "v \<noteq> []" using eq ne by simp
  moreover have "length v \<le> MAX_TITLE_LENGTH" using eq len length_trim [of raw] by simp
  moreover have "\<not> htmlRegex_test v" using lt by (rule htmlRegex_test_no_open)
  ultimately have "validateTaskTitle v = Inr v"
    using esc by (simp add: validateTaskTitle_def)
  with eq show ?thesis by simp
qed

lemma digit_char_code: "d < 10 \<Longrightarrow> (of_char (digit_char d) :: nat) = 48 + d"
proof -
  assume "d < 10"
  then have "(48 + d) mod 256 = 48 + d" by simp
  then show ?thesis unfolding digit_char_def by (simp only: of_char_of)
qed

lemma digit_char_decimal: "d < 10 \<Longrightarrow> is_decimal (digit_char d)"
  by (simp add: is_decimal_def digit_char_code)

lemma digit_char_value: "d < 10 \<Longrightarrow> digit_value (digit_char d) = Some d"
  by (simp add: digit_value_def digit_char_code)

lemma show_nat_not_Nil: "show_nat n \<noteq> []"
  by (subst show_nat.simps) simp

lemma show_nat_decimal: "\<forall>c\<in>set (show_nat n). is_decimal c"
proof (induction n rule: show_nat.induct)
  case (1 n)
  show ?case
  proof (cases "n < 10")
    case True
    then show ?thesis by (subst show_nat.simps) (simp add: digit_char_decimal)
  next
    case False
    with 1 show ?thesis by (subst show_nat.simps) (simp add: digit_char_decimal)
  qed
qed

lemma show_nat_value:
  "foldl (\<lambda>acc c. acc * 10 + the (digit_value c)) 0 (show_nat n) = n"
proof (induction n rule: show_nat.induct)
  case (1 n)
  show ?case
  proof (cases "n < 10")
    case True
    then show ?thesis by (subst show_nat.simps) (simp add: digit_char_value)
  next
    case False
    with 1 have "foldl (\<lambda>acc c. acc * 10 + the (digit_value c)) 0 (show_nat (n div 10)) = n div 10"
      by simp
    with False show ?thesis by (subst show_nat.simps) (simp add: digit_char_value)
  qed
qed

lemma is_decimal_facts:
  assumes "is_decimal c"
  shows "\<not> isWhiteSpace c" "c \<noteq> CHR ''-''" "c \<noteq> CHR ''+''" "c \<noteq> CHR ''x''" "c \<noteq> CHR ''X''"
    "is_radix_digit 10 c"
proof -
  from assms have r: "48 \<le> (of_char c :: nat)" "(of_char c :: nat) \<le> 57"
    by (simp_all add: is_decimal_def)
  then show "\<not> isWhiteSpace c" by (simp add: isWhiteSpace_def)
  show "is_radix_digit 10 c" using r by (simp add: is_radix_digit_def digit_value_def)
  have "(of_char (CHR ''-'') :: nat) = 45" "(of_char (CHR ''+'') :: nat) = 43"
    "(of_char (CHR ''x'') :: nat) = 120" "(of_char (CHR ''X'') :: nat) = 88" by simp_all
  with r show "c \<noteq> CHR ''-''" "c \<noteq> CHR ''+''" "c \<noteq> CHR ''x''" "c \<noteq> CHR ''X''"
    by auto
qed

lemma take_1_mem: "take 1 s = [a] \<Longrightarrow> a \<in> set s"
  by (cases s) auto

lemma take_2_mem: "take 2 s = [a, b] \<Longrightarrow> b \<in> set s"
proof -
  assume "take 2 s = [a, b]"
  then have "b \<in> set (take 2 s)" by (simp only: list.set_intros)
  then show ?thesis by (rule in_set_takeD)
qed

lemma parseInt_decimal:
  assumes "s \<noteq> []" and "\<forall>c\<in>set s. is_decimal c"
  shows "parseInt s = Some (int (foldl (\<lambda>acc c. acc * 10 + the (digit_value c)) 0 s))"
proof -
  have hd: "is_decimal (hd s)" using assms by simp
  have S: "dropWhile isWhiteSpace s = s"
    using is_decimal_facts(1) [OF hd] by (simp add: dropWhile_eq_self_iff)
  have minus: "take 1 s \<noteq> ''-''"
    using take_1_mem [of s "CHR ''-''"] assms(2) is_decimal_facts(2) by blast
  have plus: "take 1 s \<noteq> ''+''"
    using take_1_mem [of s "CHR ''+''"] assms(2) is_decimal_facts(3) by blast
  have hex1: "take 2 s \<noteq> ''0x''"
    using take_2_mem [of s "CHR ''0''" "CHR ''x''"] assms(2) is_decimal_facts(4) by blast
  have hex2: "take 2 s \<noteq> ''0X''"
    using take_2_mem [of s "CHR ''0''" "CHR ''X''"] assms(2) is_decimal_facts(5) by blast
  have Z: "takeWhile (is_radix_digit 10) s = s"
    using assms(2) is_decimal_facts(6) by (simp add: takeWhile_eq_all_conv)
  have sgn: "(if take 1 s = ''-'' then - 1 else (1::int)) = 1" using minus by simp
  have S1: "(if take 1 s = ''-'' \<or> take 1 s = ''+'' then drop 1 s else s) = s"
    using minus plus by simp
  have hex: "(take 2 s = ''0x'' \<or> take 2 s = ''0X'') = False" using hex1 hex2 by simp
  show ?thesis
    unfolding parseInt_def Let_def S sgn S1 hex if_False Z
    using assms(1) by simp
qed

lemma parseInt_show_nat: "parseInt (show_nat n) = Some (int n)"
  using parseInt_decimal [OF show_nat_not_Nil show_nat_decimal, of n]
  by (simp add: show_nat_value)

lemma validateDuration_again:
  assumes "validateDuration raw = Inr n"
  shows "1 \<le> n \<and> n \<le> 1440 \<and> validateDuration (toString n) = Inr n"
proof -
  from assms have r: "1 \<le> n" "n \<le> 1440"
    by (auto simp: validateDuration_def MAX_TASK_DURATION_def split: option.splits if_splits)
  then have "toString n = show_nat (nat n)" by (simp add: toString_def)
  then have "parseInt (toString n) = Some n" using r by (simp add: parseInt_show_nat)
  with r show ?thesis by (simp add: validateDuration_def MAX_TASK_DURATION_def)
qed

lemma trim_fixed:
  assumes "xs \<noteq> []" and "\<not> isWhiteSpace (hd xs)" and "\<not> isWhiteSpace (last xs)"
  shows "trim xs = xs"
proof -
  have a: "dropWhile isWhiteSpace xs = xs"
    using assms(2) by (simp add: dropWhile_eq_self_iff)
  have "hd (rev xs) = last xs" using assms(1) by (simp add: hd_rev)
  with assms(3) have b: "dropWhile isWhiteSpace (rev xs) = rev xs"
    by (simp add: dropWhile_eq_self_iff)
  show ?thesis unfolding trim_def a b by simp
qed

lemma escape_char_ends:
  "escape_char c \<noteq> []"
  "\<not> isWhiteSpace c \<Longrightarrow> \<not> isWhiteSpace (hd (escape_char c))"
  "\<not> isWhiteSpace c \<Longrightarrow> \<not> isWhiteSpace (last (escape_char c))"
  "CHR ''<'' \<notin> set (escape_char c)"
  "1 \<le> length (escape_char c)"
  "c = CHR ''&'' \<Longrightarrow> 1 < length (escape_char c)"
  by (auto simp: escape_char_def isWhiteSpace_def)

lemma escapeHtml_ends:
  assumes "t \<noteq> []"
  shows "escapeHtml t \<noteq> []"
    and "hd (escapeHtml t) = hd (escape_char (hd t))"
    and "last (escapeHtml t) = last (escape_char (last t))"
proof -
  from assms obtain c cs where t: "t = c # cs" by (cases t) auto
  show "escapeHtml t \<noteq> []" unfolding t by (simp add: escapeHtml_simps escape_char_ends)
  show "hd (escapeHtml t) = hd (escape_char (hd t))"
    unfolding t by (simp add: escapeHtml_simps escape_char_ends)
  from assms obtain bs b where t': "t = bs @ [b]" by (cases t rule: rev_cases) auto
  have "escapeHtml t = escapeHtml bs @ escape_char b"
    unfolding t' by (simp add: escapeHtml_def)
  then show "last (escapeHtml t) = last (escape_char (last t))"
    unfolding t' by (simp add: escape_char_ends)
qed

lemma escapeHtml_no_open: "CHR ''<'' \<notin> set (escapeHtml t)"
  by (induction t) (simp_all add: escapeHtml_simps escape_char_ends)

lemma escapeHtml_length: "length t \<le> length (escapeHtml t)"
proof (induction t)
  case Nil
  then show ?case by (simp add: escapeHtml_simps)
next
  case (Cons c t)
  with escape_char_ends(5) [of c] show ?case by (simp add: escapeHtml_simps)
qed

lemma escapeHtml_longer: "CHR ''&'' \<in> set t \<Longrightarrow> length t < length (escapeHtml t)"
proof (induction t)
  case Nil
  then show ?case by simp
next
  case (Cons c t)
  show ?case
  proof (cases "c = CHR ''&''")
    case True
    with escape_char_ends(6) [of c] escapeHtml_length [of t] show ?thesis
      by (simp add: escapeHtml_simps)
  next
    case False
    with Cons have "length t < length (escapeHtml t)" by simp
    with escape_char_ends(5) [of c] show ?thesis by (simp add: escapeHtml_simps)
  qed
qed

lemma validateTaskTitle_of_value:
  assumes "validateTaskTitle raw = Inr v"
  shows "validateTaskTitle v =
           (if length v > MAX_TITLE_LENGTH then Inl TitleTooLong else Inr (escapeHtml v))"
proof -
  from assms have ne: "trim raw \<noteq> []" and v: "v = escapeHtml (trim raw)"
    by (auto simp: validateTaskTitle_def split: if_splits)
  from trim_ends [OF ne] have e: "\<not> isWhiteSpace (hd (trim raw))"
    "\<not> isWhiteSpace (last (trim raw))" by simp_all
  have vne: "v \<noteq> []" unfolding v by (rule escapeHtml_ends(1) [OF ne])
  have "\<not> isWhiteSpace (hd v)" "\<not> isWhiteSpace (last v)"
    unfolding v escapeHtml_ends(2,3) [OF ne] using e by (simp_all add: escape_char_ends)
  with vne have tv: "trim v = v" by (rule trim_fixed)
  have "\<not> htmlRegex_test v"
    unfolding v by (rule htmlRegex_test_no_open [OF escapeHtml_no_open])
  with vne tv show ?thesis by (simp add: validateTaskTitle_def)
qed

lemma validateTaskTitle_fixed_iff:
  assumes "validateTaskTitle raw = Inr v"
  shows "(validateTaskTitle v = Inr v) = (CHR ''&'' \<notin> set v)"
proof
  assume "CHR ''&'' \<notin> set v"
  with validateTaskTitle_again [OF assms] show "validateTaskTitle v = Inr v" by blast
next
  assume f: "validateTaskTitle v = Inr v"
  show "CHR ''&'' \<notin> set v"
  proof
    assume "CHR ''&'' \<in> set v"
    then have "length v < length (escapeHtml v)" by (rule escapeHtml_longer)
    then have "escapeHtml v \<noteq> v" by auto
    with f validateTaskTitle_of_value [OF assms] show False
      by (simp split: if_splits)
  qed
qed

text \<open>
  Claim C7, as amended. Let \<^verbatim>\<open>validateTaskTitle\<close> accept a title and return the value \<open>v\<close>.
  Validating \<open>v\<close> fails with TitleTooLong when \<open>v\<close> has more than 100 characters, and
  otherwise succeeds and returns \<open>v\<close> escaped once more. It returns \<open>v\<close> itself exactly when
  \<open>v\<close> contains no ampersand, that is when nothing had to be escaped: the trimmed title then
  held none of the ampersand, the angle brackets and the no-break space, and \<open>v\<close> is the
  trimmed title. A duration that \<^verbatim>\<open>validateDuration\<close> accepts is an integer from 1 to 1440,
  and validating that integer returns it again.
\<close>

theorem validation_again:
  "(validateTaskTitle raw_title = Inr v \<and> CHR ''&'' \<notin> set v \<longrightarrow>
      v = trim raw_title \<and> validateTaskTitle v = Inr v) \<and>
   (validateTaskTitle raw_title = Inr v \<longrightarrow>
      validateTaskTitle v =
        (if length v > MAX_TITLE_LENGTH then Inl TitleTooLong else Inr (escapeHtml v)) \<and>
      (validateTaskTitle v = Inr v) = (CHR ''&'' \<notin> set v) \<and>
      (escapeHtml v = v) = (CHR ''&'' \<notin> set v)) \<and>
   (validateDuration raw_duration = Inr n \<longrightarrow>
      1 \<le> n \<and> n \<le> 1440 \<and> validateDuration (toString n) = Inr n)"
proof (intro conjI impI)
  assume "validateTaskTitle raw_title = Inr v \<and> CHR ''&'' \<notin> set v"
  with validateTaskTitle_again [of raw_title v]
  show "v = trim raw_title" and "validateTaskTitle v = Inr v" by blast+
next
  assume a: "validateTaskTitle raw_title = Inr v"
  show "validateTaskTitle v =
        (if length v > MAX_TITLE_LENGTH then Inl TitleTooLong else Inr (escapeHtml v))"
    by (rule validateTaskTitle_of_value [OF a])
  show "(validateTaskTitle v = Inr v) = (CHR ''&'' \<notin> set v)"
    by (rule validateTaskTitle_fixed_iff [OF a])
  show "(escapeHtml v = v) = (CHR ''&'' \<notin> set v)"
  proof
    assume "escapeHtml v = v"
    then have "\<not> length v < length (escapeHtml v)" by simp
    then show "CHR ''&'' \<notin> set v" using escapeHtml_longer [of v] by blast
  next
    assume "CHR ''&'' \<notin> set v"
    with a have "v = escapeHtml (trim raw_title)" "CHR ''&'' \<notin> set (escapeHtml (trim raw_title))"
      by (auto simp: validateTaskTitle_def split: if_splits)
    with escapeHtml_plain [of "trim raw_title"] show "escapeHtml v = v" by simp
  qed
next
  assume "validateDuration raw_duration = Inr n"
  from validateDuration_again [OF this]
  show "1 \<le> n" and "n \<le> 1440" and "validateDuration (toString n) = Inr n" by blast+
qed

theorem validation_again_witness:
  "validateTaskTitle ''  read chapter 3  '' = Inr ''read chapter 3'' \<and>
   validateTaskTitle ''read chapter 3'' = Inr ''read chapter 3'' \<and>
   validateTaskTitle ''a & b'' = Inr ''a &amp; b'' \<and>
   validateTaskTitle ''a &amp; b'' \<noteq> Inr ''a &amp; b'' \<and>
   validateDuration '' 45 minutes'' = Inr 45 \<and>
   validateDuration (toString 45) = Inr 45"
proof -
  have a: "validateTaskTitle ''  read chapter 3  '' = Inr ''read chapter 3''" by code_simp
  have b: "CHR ''&'' \<notin> set ''read chapter 3''" by simp
  have c: "validateDuration '' 45 minutes'' = Inr 45" by code_simp
  have d: "validateTaskTitle ''a & b'' = Inr ''a &amp; b''" by code_simp
  have e: "CHR ''&'' \<in> set ''a &amp; b''" by simp
  note v = validation_again
             [of "''  read chapter 3  ''" "''read chapter 3''" "'' 45 minutes''" 45]
  note w = validation_again [of "''a & b''" "''a &amp; b''" "'' 45 minutes''" 45]
  from v a b have "validateTaskTitle ''read chapter 3'' = Inr ''read chapter 3''" by blast
  moreover from v c have "validateDuration (toString 45) = Inr 45" by blast
  moreover from w d e have "validateTaskTitle ''a &amp; b'' \<noteq> Inr ''a &amp; b''" by blast
  ultimately show ?thesis using a c d by blast
qed

text \<open>
  Claim C7 as stated holds for every accepted title. The title \<open>a & b\<close> is accepted and
  sanitised to \<open>a &amp; b\<close>; validating that value escapes its ampersand once more.
\<close>

theorem validateTaskTitle_twice_counterexample:
  "validateTaskTitle ''a & b'' = Inr ''a &amp; b'' \<and>
   validateTaskTitle ''a &amp; b'' = Inr ''a &amp;amp; b'' \<and>
   ''a &amp;amp; b'' \<noteq> ''a &amp; b''"
  by code_simp

section \<open>Rescheduling a missed task\<close>

lemma erase_day_fields:
  "erase_day a = erase_day b \<Longrightarrow>
   task_id a = task_id b \<and> title a = title b \<and> duration a = duration b \<and>
   status a = status b \<and> addedDate a = addedDate b"
  by (cases a, cases b) (simp add: erase_day_def)

lemma autoBalance_keeps_fields:
  assumes "autoBalance s d = (s', moved, evs)" and "j < length (tasks s)"
  shows "task_id (tasks s' ! j) = task_id (tasks s ! j) \<and>
         title (tasks s' ! j) = title (tasks s ! j) \<and>
         duration (tasks s' ! j) = duration (tasks s ! j) \<and>
         status (tasks s' ! j) = status (tasks s ! j) \<and>
         addedDate (tasks s' ! j) = addedDate (tasks s ! j)"
proof -
  from autoBalance_frame [OF assms(1)]
  have m: "map erase_day (tasks s') = map erase_day (tasks s)" by simp
  have l: "length (tasks s') = length (tasks s)" by (rule autoBalance_length [OF assms(1)])
  have "erase_day (tasks s' ! j) = map erase_day (tasks s') ! j"
    using assms(2) l by simp
  also have "\<dots> = erase_day (tasks s ! j)" unfolding m using assms(2) by simp
  finally show ?thesis by (rule erase_day_fields)
qed

lemma autoBalance_within_limit:
  "calculateDayTime s (toLowerCase d) \<le> dailyLimit s \<Longrightarrow> autoBalance s d = (s, [], [])"
  by (simp add: autoBalance_def loop_balanced MAX_BALANCE_ATTEMPTS_def)

lemma filter_update_outside:
  "\<not> P (xs ! i) \<Longrightarrow> \<not> P v \<Longrightarrow> filter P (xs[i := v]) = filter P xs"
proof (induction xs arbitrary: i)
  case Nil
  then show ?case by simp
next
  case (Cons x xs)
  then show ?case by (cases i) auto
qed

lemma calculateDayTime_append:
  "tasks s2 = tasks s1 @ [x] \<Longrightarrow>
   calculateDayTime s2 d =
     calculateDayTime s1 d +
     (if day x = toLowerCase d \<and> status x \<noteq> STATUS_MISSED then duration x else 0)"
  by (simp add: calculateDayTime_def)

lemma calculateDayTime_other_day:
  assumes "tasks s1 = (tasks s)[i := (tasks s ! i)\<lparr>status := st\<rparr>]"
    and "day (tasks s ! i) \<noteq> toLowerCase d"
  shows "calculateDayTime s1 d = calculateDayTime s d"
proof -
  let ?P = "\<lambda>t. day t = toLowerCase d \<and> status t \<noteq> STATUS_MISSED"
  have a: "\<not> ?P (tasks s ! i)" and b: "\<not> ?P ((tasks s ! i)\<lparr>status := st\<rparr>)"
    using assms(2) by simp_all
  have "filter ?P ((tasks s)[i := (tasks s ! i)\<lparr>status := st\<rparr>]) = filter ?P (tasks s)"
    using filter_update_outside
            [where P = ?P and xs = "tasks s" and i = i and v = "(tasks s ! i)\<lparr>status := st\<rparr>",
             OF a b] .
  then show ?thesis unfolding calculateDayTime_def assms(1) by (rule arg_cong)
qed

lemma getDayAhead_3_table:
  "getDayAhead ''monday'' 3 = Some ''thursday''"
  "getDayAhead ''tuesday'' 3 = Some ''friday''"
  "getDayAhead ''wednesday'' 3 = Some ''saturday''"
  "getDayAhead ''thursday'' 3 = Some ''sunday''"
  "getDayAhead ''friday'' 3 = Some ''monday''"
  "getDayAhead ''saturday'' 3 = Some ''tuesday''"
  "getDayAhead ''sunday'' 3 = Some ''wednesday''"
  by code_simp+

lemma getDayAhead_3_other_in_week: "d \<in> set DAYS \<Longrightarrow> getDayAhead d 3 \<noteq> Some d"
  unfolding DAYS_def by (auto simp: getDayAhead_3_table)

lemma getDayAhead_3_other: "getDayAhead d 3 \<noteq> Some d"
proof
  assume e: "getDayAhead d 3 = Some d"
  from getDayAhead_reschedule [of d] have "d \<in> set DAYS"
    unfolding RESCHEDULE_DAYS_AHEAD_def e by blast
  from getDayAhead_3_other_in_week [OF this] e show False by blast
qed

lemma loop_day_count:
  "autoBalance_loop s d a = (s', n, moved, evs) \<Longrightarrow>
   day (tasks s' ! j) = (getNextDay ^^ count_list moved j) (day (tasks s ! j))"
proof (induction s d a arbitrary: s' n moved evs rule: loop_induct)
  case (finished s d a)
  then show ?case by (simp add: loop_done)
next
  case (balanced s d a)
  then show ?case by (simp add: loop_balanced)
next
  case (stuck s d a)
  then show ?case by (simp add: loop_stuck)
next
  case (move s d a i)
  let ?s = "move_task s i (getNextDay d)"
  obtain s1 n1 m1 e1 where
    r: "autoBalance_loop ?s (getNextDay d) (a + 1) = (s1, n1, m1, e1)"
    by (metis prod_cases4)
  from move.prems have eq: "s' = s1" "moved = i # m1"
    by (simp_all add: loop_move_result [OF move.hyps r])
  from select_task_Some [OF move.hyps(3)] have i: "i < length (tasks s)"
    and di: "day (tasks s ! i) = d" by simp_all
  have ih: "day (tasks s1 ! j) = (getNextDay ^^ count_list m1 j) (day (tasks ?s ! j))"
    by (rule move.IH [OF r])
  show ?case
  proof (cases "j = i")
    case True
    have "day (tasks ?s ! j) = getNextDay (day (tasks s ! j))"
      using True i di by (simp add: move_task_def)
    then have "day (tasks s1 ! j) = (getNextDay ^^ Suc (count_list m1 j)) (day (tasks s ! j))"
      using ih by (simp add: funpow_swap1)
    then show ?thesis unfolding eq using True by simp
  next
    case False
    then have "tasks ?s ! j = tasks s ! j" by (simp add: move_task_def)
    with ih False show ?thesis unfolding eq by simp
  qed
qed

lemma autoBalance_day_count:
  assumes "autoBalance s d = (s', moved, evs)"
  shows "day (tasks s' ! j) = (getNextDay ^^ count_list moved j) (day (tasks s ! j))"
    and "count_list moved j \<le> 7"
proof -
  obtain n e where r: "autoBalance_loop s (toLowerCase d) 0 = (s', n, moved, e)"
    using assms unfolding autoBalance_def by (auto split: prod.splits)
  show "day (tasks s' ! j) = (getNextDay ^^ count_list moved j) (day (tasks s ! j))"
    by (rule loop_day_count [OF r])
  have "count_list moved j \<le> length moved" by (rule count_le_length)
  also have "\<dots> \<le> 7" using loop_moved_count [OF r] by (simp add: MAX_BALANCE_ATTEMPTS_def)
  finally show "count_list moved j \<le> 7" .
qed

lemma erase_day_restore: "erase_day a = erase_day b \<Longrightarrow> a = b\<lparr>day := day a\<rparr>"
  by (cases a, cases b) (simp add: erase_day_def)

lemma autoBalance_keeps_task:
  assumes "autoBalance s d = (s', moved, evs)" and "j < length (tasks s)"
  shows "tasks s' ! j = (tasks s ! j)\<lparr>day := day (tasks s' ! j)\<rparr>"
proof -
  from autoBalance_frame [OF assms(1)]
  have m: "map erase_day (tasks s') = map erase_day (tasks s)" by simp
  have l: "length (tasks s') = length (tasks s)" by (rule autoBalance_length [OF assms(1)])
  have "erase_day (tasks s' ! j) = map erase_day (tasks s') ! j"
    using assms(2) l by simp
  also have "\<dots> = erase_day (tasks s ! j)" unfolding m using assms(2) by simp
  finally show ?thesis by (rule erase_day_restore)
qed

lemma getDayAhead_3_position:
  assumes "d \<in> set DAYS" and "getDayAhead d 3 = Some target"
  shows "target = DAYS ! ((nat (getDayIndex d) + 3) mod 7)"
proof -
  from day_position [OF assms(1)] getDayIndex_bounds [of d]
  have nn: "0 \<le> getDayIndex d" "getDayIndex d \<le> 6"
    by simp_all
  then have "js_rem (getDayIndex d + 3) 7 = (getDayIndex d + 3) mod 7"
    by (simp add: js_rem_def sgn_if)
  moreover have "nat ((getDayIndex d + 3) mod 7) = (nat (getDayIndex d) + 3) mod 7"
    using nn by (simp add: nat_mod_distrib nat_add_distrib)
  moreover have "0 \<le> (getDayIndex d + 3) mod 7" "(getDayIndex d + 3) mod 7 < 7" by simp_all
  ultimately show ?thesis
    using assms(2) by (simp add: getDayAhead_def array_read_def length_DAYS Let_def)
qed

text \<open>
  Claim C3, as amended. For every task \<open>t\<close> of the store that is not completed,
  \<^verbatim>\<open>updateStatus\<close> with the new status missed succeeds and leaves the store with exactly
  one task more. The tasks that were there keep their place, identifier, title and
  duration, and their status except for \<open>t\<close>, which is now missed. The new task is the last
  one; its title is the title of \<open>t\<close> prefixed with \<open>RESCHEDULED: \<close>, its duration is that of
  \<open>t\<close> and its status is not-completed. It is created on the target day, 3 days ahead of the
  day of \<open>t\<close>. The balancing that follows is \<^verbatim>\<open>autoBalance\<close> at the target day on the store
  with the new task in it; if that run reassigns the new task \<open>k\<close> times (\<open>k\<close> is at most 7),
  the task ends \<open>k\<close> places after the target day in the week. When the target day's total
  with the new task is within the limit, nothing is reassigned and the task is on the target
  day.
\<close>

theorem updateStatus_missed_creates_task:
  assumes "0 \<le> findIndex (\<lambda>x. task_id x = taskId) (tasks s)"
    and "i = nat (findIndex (\<lambda>x. task_id x = taskId) (tasks s))"
    and "t = tasks s ! i" and "status t \<noteq> STATUS_COMPLETED"
  shows "\<exists>target created pushed s' moved evs name k.
     getDayAhead (day t) 3 = Some target \<and>
     (day t \<in> set DAYS \<longrightarrow> target = DAYS ! ((nat (getDayIndex (day t)) + 3) mod 7)) \<and>
     created = \<lparr>task_id = fst (generate now s), title = ''RESCHEDULED: '' @ title t,
                duration = duration t, day = target, status = STATUS_NOT_COMPLETED,
                addedDate = stamp\<rparr> \<and>
     pushed = s\<lparr>tasks := (tasks s)[i := t\<lparr>status := STATUS_MISSED\<rparr>] @ [created],
                counter := counter s + 1\<rparr> \<and>
     autoBalance pushed target = (s', moved, evs) \<and>
     updateStatus s taskId STATUS_MISSED now stamp =
       (Inr True, s', evs @ [SuccessRescheduled name]) \<and>
     length (tasks s') = length (tasks s) + 1 \<and>
     k = count_list moved (length (tasks s)) \<and> k \<le> 7 \<and>
     DAYS ! ((nat (getDayIndex target) + 0) mod 7) = target \<and>
     tasks s' ! length (tasks s) =
       created\<lparr>day := DAYS ! ((nat (getDayIndex target) + k) mod 7)\<rparr> \<and>
     (calculateDayTime s target + duration t \<le> dailyLimit s \<longrightarrow> k = 0 \<and> s' = pushed) \<and>
     (\<forall>j<length (tasks s).
        task_id (tasks s' ! j) = task_id (tasks s ! j) \<and>
        title (tasks s' ! j) = title (tasks s ! j) \<and>
        duration (tasks s' ! j) = duration (tasks s ! j) \<and>
        status (tasks s' ! j) = (if j = i then STATUS_MISSED else status (tasks s ! j)))"
proof -
  define s1 where "s1 = s\<lparr>tasks := (tasks s)[i := (tasks s ! i)\<lparr>status := STATUS_MISSED\<rparr>]\<rparr>"
  have i: "i < length (tasks s)"
    using findIndex_found [OF assms(1)] assms(2) by simp
  have s1i: "tasks s1 ! i = t\<lparr>status := STATUS_MISSED\<rparr>"
    using i assms(3) by (simp add: s1_def)
  have g: "fst (generate now s1) = fst (generate now s)"
    by (simp add: generate_def s1_def)
  from rescheduleTask_Inr [where t = "tasks s1 ! i" and now = now and s = s1 and stamp = stamp]
  obtain target nt s2 s' moved evs name where
    gt: "getDayAhead (day t) 3 = Some target" and tg: "target \<in> set DAYS"
    and nt: "nt = \<lparr>task_id = fst (generate now s), title = ''RESCHEDULED: '' @ title t,
           duration = duration t, day = target,
           status = STATUS_NOT_COMPLETED, addedDate = stamp\<rparr>"
    and s2: "s2 = s1\<lparr>counter := counter s1 + 1, tasks := tasks s1 @ [nt]\<rparr>"
    and ab: "autoBalance s2 target = (s', moved, evs)"
    and r: "rescheduleTask s1 (tasks s1 ! i) now stamp =
              (Inr (), s', evs @ [SuccessRescheduled name])"
    unfolding s1i g by auto
  have s2': "s2 = s\<lparr>tasks := (tasks s)[i := t\<lparr>status := STATUS_MISSED\<rparr>] @ [nt],
                     counter := counter s + 1\<rparr>"
    unfolding s2 s1_def assms(3) by simp
  have u: "updateStatus s taskId STATUS_MISSED now stamp =
             (Inr True, s', evs @ [SuccessRescheduled name])"
    using assms(1-4) r unfolding updateStatus_def Let_def s1_def by simp
  have l1: "length (tasks s1) = length (tasks s)" by (simp add: s1_def)
  have l2: "length (tasks s2) = length (tasks s) + 1" by (simp add: s2 l1)
  have l': "length (tasks s') = length (tasks s) + 1"
    using autoBalance_length [OF ab] l2 by simp
  have last: "tasks s2 ! length (tasks s) = nt" by (simp add: s2 l1 [symmetric])
  have jn: "length (tasks s) < length (tasks s2)" using l2 by simp
  define k where "k = count_list moved (length (tasks s))"
  have k7: "k \<le> 7" unfolding k_def by (rule autoBalance_day_count(2) [OF ab])
  from day_position [OF tg] have m: "nat (getDayIndex target) < 7"
    and dm: "DAYS ! nat (getDayIndex target) = target" by simp_all
  have "day (tasks s' ! length (tasks s)) = (getNextDay ^^ k) (day nt)"
    unfolding k_def using autoBalance_day_count(1) [OF ab, of "length (tasks s)"] last by simp
  also have "day nt = DAYS ! nat (getDayIndex target)" unfolding dm by (simp add: nt)
  also have "(getNextDay ^^ k) (DAYS ! nat (getDayIndex target)) =
             DAYS ! ((nat (getDayIndex target) + k) mod 7)"
    by (rule funpow_getNextDay_nth [OF m])
  finally have dk: "day (tasks s' ! length (tasks s)) =
                    DAYS ! ((nat (getDayIndex target) + k) mod 7)" .
  have new: "tasks s' ! length (tasks s) =
               nt\<lparr>day := DAYS ! ((nat (getDayIndex target) + k) mod 7)\<rparr>"
    using autoBalance_keeps_task [OF ab jn] unfolding last dk .
  have d0: "DAYS ! ((nat (getDayIndex target) + 0) mod 7) = target"
    using m dm by simp
  have pos: "target = DAYS ! ((nat (getDayIndex (day t)) + 3) mod 7)" if "day t \<in> set DAYS"
    by (rule getDayAhead_3_position [OF that gt])
  have lt: "toLowerCase target = target" by (rule toLowerCase_DAYS [OF tg])
  have within: "k = 0 \<and> s' = s2"
    if w: "calculateDayTime s target + duration t \<le> dailyLimit s"
  proof -
    have "Some (day t) \<noteq> getDayAhead (day t) 3"
      using getDayAhead_3_other [of "day t"] by (rule not_sym)
    then have "day t \<noteq> target" unfolding gt by simp
    then have other: "day (tasks s ! i) \<noteq> toLowerCase target"
      unfolding lt assms(3) .
    have "calculateDayTime s1 target = calculateDayTime s target"
      by (rule calculateDayTime_other_day [OF _ other]) (simp add: s1_def)
    moreover have "calculateDayTime s2 target =
        calculateDayTime s1 target +
        (if day nt = toLowerCase target \<and> status nt \<noteq> STATUS_MISSED then duration nt else 0)"
      by (rule calculateDayTime_append) (simp add: s2)
    moreover have "day nt = toLowerCase target" "status nt \<noteq> STATUS_MISSED"
      "duration nt = duration t"
      unfolding lt by (simp_all add: nt STATUS_distinct)
    ultimately have "calculateDayTime s2 target = calculateDayTime s target + duration t"
      by simp
    moreover have "dailyLimit s2 = dailyLimit s" by (simp add: s2 s1_def)
    ultimately have "calculateDayTime s2 (toLowerCase target) \<le> dailyLimit s2"
      using w lt by simp
    from autoBalance_within_limit [OF this] ab have "s' = s2" "moved = []" by simp_all
    then show ?thesis by (simp add: k_def)
  qed
  have old: "task_id (tasks s' ! j) = task_id (tasks s ! j) \<and>
        title (tasks s' ! j) = title (tasks s ! j) \<and>
        duration (tasks s' ! j) = duration (tasks s ! j) \<and>
        status (tasks s' ! j) = (if j = i then STATUS_MISSED else status (tasks s ! j))"
    if j: "j < length (tasks s)" for j
  proof -
    have j2: "j < length (tasks s2)" using j l2 by simp
    have e: "tasks s2 ! j = (tasks s)[i := (tasks s ! i)\<lparr>status := STATUS_MISSED\<rparr>] ! j"
      using j by (simp add: s2 s1_def nth_append)
    from autoBalance_keeps_fields [OF ab j2] show ?thesis
      unfolding e using j by (cases "j = i") simp_all
  qed
  from gt pos nt s2' ab u l' k_def k7 d0 new within old show ?thesis
    by blast
qed

theorem updateStatus_missed_creates_task_witness:
  "\<exists>s' moved evs name k.
     updateStatus thursday_full_store ''task_6_2'' STATUS_MISSED 7 ''z'' =
       (Inr True, s', evs @ [SuccessRescheduled name]) \<and>
     length (tasks s') = length (tasks thursday_full_store) + 1 \<and>
     k = count_list moved (length (tasks thursday_full_store)) \<and> k \<le> 7 \<and>
     tasks s' ! length (tasks thursday_full_store) =
       \<lparr>task_id = fst (generate 7 thursday_full_store), title = ''RESCHEDULED: essay'',
        duration = 100, day = DAYS ! ((3 + k) mod 7), status = STATUS_NOT_COMPLETED,
        addedDate = ''z''\<rparr>"
proof -
  have f: "findIndex (\<lambda>x. task_id x = ''task_6_2'') (tasks thursday_full_store) = 1"
    by (simp add: thursday_full_store_def)
  have h1: "0 \<le> findIndex (\<lambda>x. task_id x = ''task_6_2'') (tasks thursday_full_store)"
    unfolding f by simp
  have h2: "1 = nat (findIndex (\<lambda>x. task_id x = ''task_6_2'') (tasks thursday_full_store))"
    unfolding f by simp
  have h4: "status (tasks thursday_full_store ! 1) \<noteq> STATUS_COMPLETED"
    by (simp add: thursday_full_store_def STATUS_COMPLETED_def)
  have h5: "getDayAhead (day (tasks thursday_full_store ! 1)) 3 = Some ''thursday''"
    by code_simp
  have ix: "nat (getDayIndex ''thursday'') = 3" by code_simp
  have l: "title (tasks thursday_full_store ! 1) = ''essay''"
    "duration (tasks thursday_full_store ! 1) = 100"
    by (simp_all add: thursday_full_store_def)
  from updateStatus_missed_creates_task [OF h1 h2 refl h4, of 7 "''z''"]
  obtain target created s' moved evs name k where
    gt: "getDayAhead (day (tasks thursday_full_store ! 1)) 3 = Some target"
    and cr: "created = \<lparr>task_id = fst (generate 7 thursday_full_store),
                title = ''RESCHEDULED: '' @ title (tasks thursday_full_store ! 1),
                duration = duration (tasks thursday_full_store ! 1), day = target,
                status = STATUS_NOT_COMPLETED, addedDate = ''z''\<rparr>"
    and u: "updateStatus thursday_full_store ''task_6_2'' STATUS_MISSED 7 ''z'' =
       (Inr True, s', evs @ [SuccessRescheduled name])"
    and len: "length (tasks s') = length (tasks thursday_full_store) + 1"
    and k: "k = count_list moved (length (tasks thursday_full_store))" "k \<le> 7"
    and new: "tasks s' ! length (tasks thursday_full_store) =
       created\<lparr>day := DAYS ! ((nat (getDayIndex target) + k) mod 7)\<rparr>"
    by blast
  from gt h5 have tg: "target = ''thursday''" by simp
  have "tasks s' ! length (tasks thursday_full_store) =
       \<lparr>task_id = fst (generate 7 thursday_full_store), title = ''RESCHEDULED: essay'',
        duration = 100, day = DAYS ! ((3 + k) mod 7), status = STATUS_NOT_COMPLETED,
        addedDate = ''z''\<rparr>"
    unfolding new cr tg ix l by simp
  with u len k show ?thesis by blast
qed

text \<open>
  Claim C3 as stated puts the new task 3 days ahead in the store after the call. Thursday
  already holds a task of 1000 minutes; the task of Monday is missed, its copy of 100 minutes
  is created on Thursday, and the balancing that follows moves the copy to Friday, 4 days
  ahead of Monday.
\<close>

theorem updateStatus_missed_day_counterexample:
  "status (tasks thursday_full_store ! 1) \<noteq> STATUS_COMPLETED \<and>
   getDayAhead (day (tasks thursday_full_store ! 1)) 3 = Some ''thursday'' \<and>
   updateStatus thursday_full_store ''task_6_2'' STATUS_MISSED 7 ''z'' =
     (Inr True,
      \<lparr>tasks = [\<lparr>task_id = ''task_5_1'', title = ''project'', duration = 1000,
                 day = ''thursday'', status = ''not-completed'',
                 addedDate = ''2026-01-05T08:00:00.000Z''\<rparr>,
                \<lparr>task_id = ''task_6_2'', title = ''essay'', duration = 100, day = ''monday'',
                 status = ''missed'', addedDate = ''2026-01-05T08:01:00.000Z''\<rparr>,
                \<lparr>task_id = ''task_7_3'', title = ''RESCHEDULED: essay'', duration = 100,
                 day = ''friday'', status = ''not-completed'', addedDate = ''z''\<rparr>],
       dailyLimit = 150, counter = 4\<rparr>,
      [SuccessRescheduled ''Thursday''])"
  by code_simp

section \<open>The invariant of the store\<close>

lemma show_nat_inj:
  assumes "show_nat a = show_nat b"
  shows "a = b"
proof -
  have "a = foldl (\<lambda>acc c. acc * 10 + the (digit_value c)) 0 (show_nat a)"
    by (rule show_nat_value [symmetric])
  also have "\<dots> = foldl (\<lambda>acc c. acc * 10 + the (digit_value c)) 0 (show_nat b)"
    unfolding assms ..
  also have "\<dots> = b" by (rule show_nat_value)
  finally show ?thesis .
qed

lemma underscore_not_in_show_nat: "CHR ''_'' \<notin> set (show_nat n)"
proof
  assume "CHR ''_'' \<in> set (show_nat n)"
  with show_nat_decimal have "is_decimal (CHR ''_'')" by blast
  then show False by (simp add: is_decimal_def)
qed

lemma generate_inj:
  assumes "''task_'' @ show_nat n @ ''_'' @ show_nat c =
           ''task_'' @ show_nat n' @ ''_'' @ show_nat c'"
  shows "n = n' \<and> c = c'"
proof -
  from assms have "show_nat n @ CHR ''_'' # show_nat c = show_nat n' @ CHR ''_'' # show_nat c'"
    by simp
  then have "show_nat n = show_nat n' \<and> show_nat c = show_nat c'"
    using append_Cons_eq_iff [OF underscore_not_in_show_nat underscore_not_in_show_nat]
    by blast
  then show ?thesis by (simp add: show_nat_inj)
qed

lemma issued_id_mono:
  assumes "issued_id c tid" and "c \<le> c'"
  shows "issued_id c' tid"
proof -
  from assms(1) obtain n k where "k < c" "tid = ''task_'' @ show_nat n @ ''_'' @ show_nat k"
    unfolding issued_id_def by blast
  with assms(2) have "k < c' \<and> tid = ''task_'' @ show_nat n @ ''_'' @ show_nat k" by simp
  then show ?thesis unfolding issued_id_def by blast
qed

lemma issued_id_fresh: "issued_id (counter s) tid \<Longrightarrow> tid \<noteq> fst (generate now s)"
proof
  assume a: "issued_id (counter s) tid" and e: "tid = fst (generate now s)"
  from a obtain n k where k: "k < counter s"
    and t: "tid = ''task_'' @ show_nat n @ ''_'' @ show_nat k"
    unfolding issued_id_def by blast
  from e t have "''task_'' @ show_nat n @ ''_'' @ show_nat k =
                 ''task_'' @ show_nat now @ ''_'' @ show_nat (counter s)"
    by (simp add: generate_def)
  from generate_inj [OF this] k show False by simp
qed

lemma issued_id_generate: "issued_id (counter s + 1) (fst (generate now s))"
  unfolding issued_id_def generate_def
  by (intro exI [of _ now] exI [of _ "counter s"]) simp

lemma full_invariant_maps:
  "full_invariant D s =
     (set (map day (tasks s)) \<subseteq> set DAYS \<union> D \<and>
      (\<forall>d\<in>set (map duration (tasks s)). 1 \<le> d \<and> d \<le> 1440) \<and>
      distinct (map task_id (tasks s)) \<and>
      (\<forall>x\<in>set (map task_id (tasks s)). issued_id (counter s) x))"
  unfolding full_invariant_def ids_issued_def
  by auto

lemma erased_maps:
  assumes "map erase_day xs = map erase_day ys"
  shows "map task_id xs = map task_id ys" and "map duration xs = map duration ys"
proof -
  have "map task_id xs = map task_id (map erase_day xs)"
    by (simp add: erase_day_def)
  also have "\<dots> = map task_id (map erase_day ys)" unfolding assms ..
  also have "\<dots> = map task_id ys" by (simp add: erase_day_def)
  finally show "map task_id xs = map task_id ys" .
  have "map duration xs = map duration (map erase_day xs)"
    by (simp add: erase_day_def)
  also have "\<dots> = map duration (map erase_day ys)" unfolding assms ..
  also have "\<dots> = map duration ys" by (simp add: erase_day_def)
  finally show "map duration xs = map duration ys" .
qed

lemma move_task_days:
  "set (map day (tasks s)) \<subseteq> set DAYS \<union> D \<Longrightarrow>
   set (map day (tasks (move_task s i (getNextDay d)))) \<subseteq> set DAYS \<union> D"
proof -
  assume a: "set (map day (tasks s)) \<subseteq> set DAYS \<union> D"
  have "map day (tasks (move_task s i (getNextDay d))) = (map day (tasks s))[i := getNextDay d]"
    by (simp add: move_task_def map_update)
  moreover have "set ((map day (tasks s))[i := getNextDay d]) \<subseteq>
                 insert (getNextDay d) (set (map day (tasks s)))"
    by (rule set_update_subset_insert)
  ultimately show ?thesis using a getNextDay_in_DAYS [of d] by auto
qed

lemma loop_days:
  "autoBalance_loop s d a = (s', n, moved, evs) \<Longrightarrow>
   set (map day (tasks s)) \<subseteq> set DAYS \<union> D \<Longrightarrow>
   set (map day (tasks s')) \<subseteq> set DAYS \<union> D"
proof (induction s d a arbitrary: s' n moved evs rule: loop_induct)
  case (finished s d a)
  then show ?case by (simp add: loop_done)
next
  case (balanced s d a)
  then show ?case by (simp add: loop_balanced)
next
  case (stuck s d a)
  then show ?case by (simp add: loop_stuck)
next
  case (move s d a i)
  obtain s1 n1 m1 e1 where
    r: "autoBalance_loop (move_task s i (getNextDay d)) (getNextDay d) (a + 1) = (s1, n1, m1, e1)"
    by (metis prod_cases4)
  from move.prems(1) have "s' = s1"
    by (simp add: loop_move_result [OF move.hyps r])
  with move.IH [OF r move_task_days [OF move.prems(2)]] show ?case by simp
qed

lemma autoBalance_invariant:
  assumes "full_invariant D s" and "autoBalance s d = (s', moved, evs)"
  shows "full_invariant D s'"
proof -
  obtain n e where r: "autoBalance_loop s (toLowerCase d) 0 = (s', n, moved, e)"
    using assms(2) unfolding autoBalance_def by (auto split: prod.splits)
  from assms(1) have "set (map day (tasks s)) \<subseteq> set DAYS \<union> D"
    unfolding full_invariant_maps by blast
  from loop_days [OF r this] have days: "set (map day (tasks s')) \<subseteq> set DAYS \<union> D" .
  from loop_frame [OF r] have c: "counter s' = counter s"
    and m: "map erase_day (tasks s') = map erase_day (tasks s)" by simp_all
  from erased_maps [OF m] assms(1) days c show ?thesis
    unfolding full_invariant_maps by simp
qed

lemma push_invariant:
  assumes "full_invariant D s"
    and "(day nt \<in> set DAYS \<or> day nt \<in> D) \<and> 1 \<le> duration nt \<and> duration nt \<le> 1440"
    and "task_id nt = fst (generate now s)"
  shows "full_invariant D (s\<lparr>counter := counter s + 1, tasks := tasks s @ [nt]\<rparr>)"
proof -
  from assms(1) have iss: "\<forall>x\<in>set (map task_id (tasks s)). issued_id (counter s) x"
    unfolding full_invariant_maps by blast
  have fresh: "task_id nt \<notin> set (map task_id (tasks s))"
    using iss issued_id_fresh [of s _ now] assms(3) by blast
  have newer: "\<forall>x\<in>set (map task_id (tasks s)). issued_id (counter s + 1) x"
    using iss issued_id_mono [of "counter s" _ "counter s + 1"] by simp
  have own: "issued_id (counter s + 1) (task_id nt)"
    unfolding assms(3) by (rule issued_id_generate)
  from assms(1,2) fresh newer own show ?thesis
    unfolding full_invariant_maps by auto
qed

lemma map_update_same:
  "(\<And>x. f (g x) = f x) \<Longrightarrow> map f (xs[i := g (xs ! i)]) = map f xs"
  by (induction xs arbitrary: i) (auto split: nat.splits)

lemma status_update_invariant:
  assumes "full_invariant D s"
  shows "full_invariant D (s\<lparr>tasks := (tasks s)[i := (tasks s ! i)\<lparr>status := x\<rparr>]\<rparr>)"
proof -
  let ?ts = "(tasks s)[i := (tasks s ! i)\<lparr>status := x\<rparr>]"
  have "map day ?ts = map day (tasks s)" "map duration ?ts = map duration (tasks s)"
    "map task_id ?ts = map task_id (tasks s)"
    by (rule map_update_same, simp)+
  with assms show ?thesis unfolding full_invariant_maps by simp
qed

lemma distinct_remove_nth: "distinct ys \<Longrightarrow> distinct (take i ys @ drop (Suc i) ys)"
  using set_take_disj_set_drop_if_distinct [of ys i "Suc i"] by simp

lemma delete_invariant:
  assumes "full_invariant D s"
  shows "full_invariant D (s\<lparr>tasks := take i (tasks s) @ drop (i + 1) (tasks s)\<rparr>)"
proof -
  define ts where "ts = take i (tasks s) @ drop (i + 1) (tasks s)"
  have sub: "set ts \<subseteq> set (tasks s)"
    unfolding ts_def using set_take_subset [of i "tasks s"] set_drop_subset [of "i + 1" "tasks s"]
    by auto
  have a: "set (map day ts) \<subseteq> set DAYS \<union> D"
    using assms sub unfolding full_invariant_maps set_map by blast
  have b: "\<forall>d\<in>set (map duration ts). 1 \<le> d \<and> d \<le> 1440"
    using assms sub unfolding full_invariant_maps set_map by blast
  have c: "\<forall>x\<in>set (map task_id ts). issued_id (counter s) x"
    using assms sub unfolding full_invariant_maps set_map by blast
  have "map task_id ts = take i (map task_id (tasks s)) @ drop (Suc i) (map task_id (tasks s))"
    unfolding ts_def by (simp add: take_map drop_map)
  moreover have "distinct (map task_id (tasks s))"
    using assms unfolding full_invariant_maps by blast
  ultimately have d: "distinct (map task_id ts)"
    using distinct_remove_nth [of "map task_id (tasks s)" i] by simp
  have "full_invariant D (s\<lparr>tasks := ts\<rparr>)"
    unfolding full_invariant_maps using a b c d by simp
  then show ?thesis unfolding ts_def .
qed

lemma addTask_invariant:
  assumes "full_invariant D s" and "toLowerCase d \<in> set DAYS \<or> toLowerCase d \<in> D"
  shows "full_invariant D (fst (snd (addTask s ttl dur d st now stamp)))"
proof (cases "fst (addTask s ttl dur d st now stamp)")
  case (Inl e)
  from addTask_error [OF Inl] assms(1) show ?thesis by simp
next
  case (Inr t)
  obtain s' evs where r: "addTask s ttl dur d st now stamp = (Inr t, s', evs)"
    using Inr by (cases "addTask s ttl dur d st now stamp") auto
  from addTask_Inr [OF r] obtain tv dv nt s2 moved where
    dv: "validateDuration dur = Inr dv"
    and nt: "nt = \<lparr>task_id = fst (generate now s), title = tv, duration = dv,
           day = toLowerCase d, status = st, addedDate = stamp\<rparr>"
    and s2: "s2 = s\<lparr>counter := counter s + 1, tasks := tasks s @ [nt]\<rparr>"
    and ab: "autoBalance s2 d = (s', moved, evs)"
    by blast
  from validateDuration_again [OF dv] assms(2)
  have v: "(day nt \<in> set DAYS \<or> day nt \<in> D) \<and> 1 \<le> duration nt \<and> duration nt \<le> 1440"
    by (simp add: nt)
  have "full_invariant D s2"
    unfolding s2 by (rule push_invariant [OF assms(1) v]) (simp add: nt)
  from autoBalance_invariant [OF this ab] r show ?thesis by simp
qed

lemma deleteTask_invariant:
  assumes "full_invariant D s"
  shows "full_invariant D (snd (deleteTask s taskId))"
  using assms delete_invariant [OF assms]
  by (simp add: deleteTask_def Let_def)

lemma updateStatus_invariant:
  assumes "full_invariant D s"
  shows "full_invariant D (fst (snd (updateStatus s taskId newStatus now stamp)))"
proof (cases "findIndex (\<lambda>t. task_id t = taskId) (tasks s) < 0")
  case True
  with assms show ?thesis by (simp add: updateStatus_def)
next
  case found: False
  define i where "i = nat (findIndex (\<lambda>t. task_id t = taskId) (tasks s))"
  define s1 where "s1 = s\<lparr>tasks := (tasks s)[i := (tasks s ! i)\<lparr>status := newStatus\<rparr>]\<rparr>"
  have i: "i < length (tasks s)"
    using findIndex_found [of "\<lambda>t. task_id t = taskId" "tasks s"] found by (simp add: i_def)
  have inv1: "full_invariant D s1"
    unfolding s1_def by (rule status_update_invariant [OF assms])
  show ?thesis
  proof (cases "status (tasks s ! i) = STATUS_COMPLETED \<and> newStatus = STATUS_MISSED")
    case True
    with found assms show ?thesis by (simp add: updateStatus_def Let_def i_def)
  next
    case legal: False
    show ?thesis
    proof (cases "newStatus = STATUS_MISSED")
      case False
      with found legal inv1 show ?thesis
        by (simp add: updateStatus_def Let_def i_def s1_def)
    next
      case True
      from rescheduleTask_Inr
             [where t = "tasks s1 ! i" and now = now and s = s1 and stamp = stamp]
      obtain target nt s2 s' moved evs name where
        tg: "target \<in> set DAYS"
        and nt: "nt = \<lparr>task_id = fst (generate now s1),
               title = ''RESCHEDULED: '' @ title (tasks s1 ! i),
               duration = duration (tasks s1 ! i), day = target,
               status = STATUS_NOT_COMPLETED, addedDate = stamp\<rparr>"
        and s2: "s2 = s1\<lparr>counter := counter s1 + 1, tasks := tasks s1 @ [nt]\<rparr>"
        and ab: "autoBalance s2 target = (s', moved, evs)"
        and r: "rescheduleTask s1 (tasks s1 ! i) now stamp =
                  (Inr (), s', evs @ [SuccessRescheduled name])"
        by blast
      have "i < length (tasks s1)" using i by (simp add: s1_def)
      then have "tasks s1 ! i \<in> set (tasks s1)" by (rule nth_mem)
      with inv1 have "1 \<le> duration (tasks s1 ! i) \<and> duration (tasks s1 ! i) \<le> 1440"
        unfolding full_invariant_def by blast
      with tg have v: "(day nt \<in> set DAYS \<or> day nt \<in> D) \<and> 1 \<le> duration nt \<and>
                       duration nt \<le> 1440"
        by (simp add: nt)
      have "full_invariant D s2"
        unfolding s2 by (rule push_invariant [OF inv1 v]) (simp add: nt)
      from autoBalance_invariant [OF this ab] have inv': "full_invariant D s'" .
      have "updateStatus s taskId newStatus now stamp =
              (Inr True, s', evs @ [SuccessRescheduled name])"
        using found legal True r unfolding updateStatus_def Let_def i_def s1_def by simp
      with inv' show ?thesis by simp
    qed
  qed
qed

lemma apply_operation_invariant:
  "full_invariant D s \<Longrightarrow> set (day_argument op) \<subseteq> set DAYS \<union> D \<Longrightarrow>
   full_invariant D (apply_operation s op)"
  by (cases op) (simp_all add: addTask_invariant deleteTask_invariant updateStatus_invariant)

lemma run_invariant:
  "full_invariant D s \<Longrightarrow> set (day_arguments ops) \<subseteq> set DAYS \<union> D \<Longrightarrow>
   full_invariant D (run s ops)"
  unfolding run_def day_arguments_def
  by (induction ops arbitrary: s) (simp_all add: apply_operation_invariant)

lemma empty_store_invariant: "full_invariant D empty_store"
  by (simp add: full_invariant_def ids_issued_def empty_store_def)

lemma valid_day_arguments:
  "\<forall>op\<in>set ops. day_argument_valid op \<Longrightarrow> set (day_arguments ops) \<subseteq> set DAYS"
proof (induction ops)
  case Nil
  then show ?case by (simp add: day_arguments_def)
next
  case (Cons op ops)
  then have "set (day_arguments ops) \<subseteq> set DAYS" and "day_argument_valid op" by simp_all
  then show ?case by (cases op) (simp_all add: day_arguments_def)
qed

text \<open>
  Claim C4, as amended. Starting from the empty store, after any sequence of \<^verbatim>\<open>addTask\<close>,
  \<^verbatim>\<open>deleteTask\<close> and \<^verbatim>\<open>updateStatus\<close>, whatever their arguments, every stored task has a
  duration from 1 to 1440 and the identifiers in the store are pairwise distinct. Every
  stored task's day is one of the seven day tokens or the lowercased day argument of some
  \<^verbatim>\<open>addTask\<close> of the sequence, which the operation stores unchecked. So the whole invariant
  holds whenever every \<^verbatim>\<open>addTask\<close> is given a day that lowercases to one of the seven
  tokens.
\<close>

theorem store_invariant_holds:
  "(\<forall>t\<in>set (tasks (run empty_store ops)).
      1 \<le> duration t \<and> duration t \<le> 1440 \<and>
      (day t \<in> set DAYS \<or> day t \<in> set (day_arguments ops))) \<and>
   distinct (map task_id (tasks (run empty_store ops))) \<and>
   ((\<forall>op\<in>set ops. day_argument_valid op) \<longrightarrow> store_invariant (run empty_store ops))"
proof (intro conjI impI)
  have "full_invariant (set (day_arguments ops)) (run empty_store ops)"
    by (rule run_invariant [OF empty_store_invariant]) simp
  then show "\<forall>t\<in>set (tasks (run empty_store ops)).
      1 \<le> duration t \<and> duration t \<le> 1440 \<and>
      (day t \<in> set DAYS \<or> day t \<in> set (day_arguments ops))"
    and "distinct (map task_id (tasks (run empty_store ops)))"
    unfolding full_invariant_def by blast+
next
  assume "\<forall>op\<in>set ops. day_argument_valid op"
  then have "set (day_arguments ops) \<subseteq> set DAYS \<union> {}"
    using valid_day_arguments by simp
  from run_invariant [OF empty_store_invariant this]
  show "store_invariant (run empty_store ops)"
    unfolding full_invariant_def store_invariant_def valid_task_def list_all_iff by blast
qed

theorem store_invariant_holds_witness:
  "store_invariant
     (run empty_store
        [AddTask ''project'' ''1000'' ''Thursday'' ''not-completed'' 5 ''a'',
         AddTask ''essay'' ''100'' ''monday'' ''not-completed'' 5 ''b'',
         UpdateStatus ''task_5_2'' ''missed'' 6 ''c'',
         DeleteTask ''task_5_1'']) \<and>
   distinct (map task_id (tasks (run empty_store
        [AddTask ''read'' ''30'' ''funday'' ''not-completed'' 5 ''x'',
         AddTask ''read'' ''30'' ''funday'' ''not-completed'' 5 ''x''])))"
proof -
  have h: "\<forall>op\<in>set [AddTask ''project'' ''1000'' ''Thursday'' ''not-completed'' 5 ''a'',
                      AddTask ''essay'' ''100'' ''monday'' ''not-completed'' 5 ''b'',
                      UpdateStatus ''task_5_2'' ''missed'' 6 ''c'',
                      DeleteTask ''task_5_1'']. day_argument_valid op"
    by code_simp
  from store_invariant_holds
         [of "[AddTask ''project'' ''1000'' ''Thursday'' ''not-completed'' 5 ''a'',
               AddTask ''essay'' ''100'' ''monday'' ''not-completed'' 5 ''b'',
               UpdateStatus ''task_5_2'' ''missed'' 6 ''c'',
               DeleteTask ''task_5_1'']"] h
  have "store_invariant
     (run empty_store
        [AddTask ''project'' ''1000'' ''Thursday'' ''not-completed'' 5 ''a'',
         AddTask ''essay'' ''100'' ''monday'' ''not-completed'' 5 ''b'',
         UpdateStatus ''task_5_2'' ''missed'' 6 ''c'',
         DeleteTask ''task_5_1''])"
    by blast
  moreover from store_invariant_holds
         [of "[AddTask ''read'' ''30'' ''funday'' ''not-completed'' 5 ''x'',
               AddTask ''read'' ''30'' ''funday'' ''not-completed'' 5 ''x'']"]
  have "distinct (map task_id (tasks (run empty_store
        [AddTask ''read'' ''30'' ''funday'' ''not-completed'' 5 ''x'',
         AddTask ''read'' ''30'' ''funday'' ''not-completed'' 5 ''x''])))"
    by blast
  ultimately show ?thesis by blast
qed

text \<open>
  Claim C4 as stated restricts no argument. \<^verbatim>\<open>addTask\<close> stores the day it is given,
  lowercased and unchecked: after one call with the day \<open>funday\<close> the store holds a task
  whose day is not a day of the week.
\<close>

theorem store_invariant_day_counterexample:
  "map day (tasks (run empty_store [AddTask ''read'' ''30'' ''funday'' ''not-completed'' 5 ''x'']))
     = [''funday''] \<and>
   \<not> store_invariant
       (run empty_store [AddTask ''read'' ''30'' ''funday'' ''not-completed'' 5 ''x''])"
  by code_simp

end
